theory Spec2Isabelle
  imports Complex_Main "HOL-Library.Sublist"
begin

section \<open>Problems and digit arrays (types, utils/mathGenerator.ts)\<close>

datatype Operation = Addition | Subtraction

text \<open>
  \<open>MathProblem\<close> of the types module. JavaScript numbers that hold integers are modelled
  as \<open>int\<close>. The \<open>id\<close> string is built from \<open>Date.now()\<close> and one draw of
  \<open>Math.random()\<close>; it is kept as that pair.
\<close>

record MathProblem =
  id_tok :: "int \<times> rat"
  operand1 :: int
  operand2 :: int
  operation :: Operation
  answer :: int
  requiresCarry :: bool

text \<open>JavaScript's \<open>%\<close> on integers: the remainder takes the sign of the dividend.\<close>

definition js_rem :: "int \<Rightarrow> int \<Rightarrow> int" where
  "js_rem a b = sgn a * (\<bar>a\<bar> mod \<bar>b\<bar>)"

text \<open>
  \<open>getDigits\<close>: the digits of a number, ones first. The loop is
  \<open>while (n > 0) { digits.push(n % 10); n = Math.floor(n / 10); }\<close>.
\<close>

function getDigits_loop :: "int \<Rightarrow> int list \<Rightarrow> int list" where
  "getDigits_loop n digits =
     (if n > 0 then getDigits_loop (n div 10) (digits @ [js_rem n 10]) else digits)"
  by pat_completeness auto
termination
  by (relation "measure (\<lambda>(n, digits). nat n)") auto

definition getDigits :: "int \<Rightarrow> int list" where
  "getDigits num = (if num = 0 then [0] else getDigits_loop \<bar>num\<bar> [])"

text \<open>
  \<open>padDigits\<close>: pads with \<open>null\<close> (here \<open>None\<close>) up to the requested length:
  \<open>while (padded.length < length) padded.push(null)\<close>.
\<close>

function padDigits_loop :: "int option list \<Rightarrow> nat \<Rightarrow> int option list" where
  "padDigits_loop padded len =
     (if length padded < len then padDigits_loop (padded @ [None]) len else padded)"
  by pat_completeness auto
termination
  by (relation "measure (\<lambda>(padded, len). len - length padded)") auto

definition padDigits :: "int list \<Rightarrow> nat \<Rightarrow> int option list" where
  "padDigits digits len = padDigits_loop (map Some digits) len"

text \<open>
  \<open>arr[i] ?? 0\<close>: an index outside the array reads \<open>undefined\<close>, and both
  \<open>undefined\<close> and \<open>null\<close> are replaced by 0.
\<close>

definition at_or_zero :: "int option list \<Rightarrow> nat \<Rightarrow> int" where
  "at_or_zero arr i = (if i < length arr then (case arr ! i of None \<Rightarrow> 0 | Some d \<Rightarrow> d) else 0)"

section \<open>Column decomposition (components/animations/Celebration.tsx)\<close>

text \<open>\<open>PLACE_NAMES[i] || `place ${i}`\<close> needs the decimal rendering of an index.\<close>

definition digit_char :: "nat \<Rightarrow> char" where
  "digit_char d = ''0123456789'' ! d"

function show_nat :: "nat \<Rightarrow> string" where
  "show_nat n = (if n < 10 then [digit_char n] else show_nat (n div 10) @ [digit_char (n mod 10)])"
  by pat_completeness auto
termination
  by (relation "measure id") auto

text \<open>Template-literal rendering of an integer-valued number.\<close>

definition show_int :: "int \<Rightarrow> string" where
  "show_int k = (if k < 0 then ''-'' @ show_nat (nat (- k)) else show_nat (nat k))"

definition PLACE_NAMES :: "string list" where
  "PLACE_NAMES = [''ones'', ''tens'', ''hundreds'', ''thousands'']"

definition place_name :: "nat \<Rightarrow> string" where
  "place_name i = (if i < length PLACE_NAMES then PLACE_NAMES ! i else ''place '' @ show_nat i)"

text \<open>The field \<open>sum\<close> of the source is \<open>sum_col\<close> here.\<close>

record ColumnCalc =
  placeIndex :: nat
  placeName :: string
  op1Digit :: int
  op2Digit :: int
  carryIn :: int
  sum_col :: int
  resultDigit :: int
  carryOut :: int

text \<open>The addition pass: \<open>for (let i = 0; i < max; i++)\<close> with the running \<open>carryIn\<close>.\<close>

function addition_pass ::
  "int option list \<Rightarrow> int option list \<Rightarrow> nat \<Rightarrow> nat \<Rightarrow> int \<Rightarrow> ColumnCalc list \<Rightarrow> ColumnCalc list" where
  "addition_pass paddedOp1 paddedOp2 mx i cin cols =
     (if i < mx then
        (let d1 = at_or_zero paddedOp1 i;
             d2 = at_or_zero paddedOp2 i;
             sm = d1 + d2 + cin;
             rd = js_rem sm 10;
             cout = sm div 10
         in addition_pass paddedOp1 paddedOp2 mx (Suc i) cout
              (cols @ [\<lparr>placeIndex = i, placeName = place_name i, op1Digit = d1, op2Digit = d2,
                         carryIn = cin, sum_col = sm, resultDigit = rd, carryOut = cout\<rparr>]))
      else cols)"
  by pat_completeness auto
termination
  by (relation "measure (\<lambda>(p1, p2, mx, i, cin, cols). mx - i)") auto

record SubtractionColumnCalc =
  placeIndex :: nat
  placeName :: string
  op1Digit :: int
  op2Digit :: int
  borrowIn :: int
  needsBorrow :: bool
  borrowedValue :: int
  resultDigit :: int

text \<open>
  The subtraction pass: \<open>d1\<close> is the upper digit after the incoming borrow; the
  column stores the raw upper digit as \<open>op1Digit\<close>.
\<close>

function subtraction_pass ::
  "int option list \<Rightarrow> int option list \<Rightarrow> nat \<Rightarrow> nat \<Rightarrow> int \<Rightarrow>
   SubtractionColumnCalc list \<Rightarrow> SubtractionColumnCalc list" where
  "subtraction_pass paddedOp1 paddedOp2 mx i bin cols =
     (if i < mx then
        (let d1 = at_or_zero paddedOp1 i - bin;
             d2 = at_or_zero paddedOp2 i;
             nb = (d1 < d2);
             bv = (if nb then d1 + 10 else d1);
             rd = bv - d2
         in subtraction_pass paddedOp1 paddedOp2 mx (Suc i) (if nb then 1 else 0)
              (cols @ [\<lparr>placeIndex = i, placeName = place_name i,
                         op1Digit = at_or_zero paddedOp1 i, op2Digit = d2, borrowIn = bin,
                         needsBorrow = nb, borrowedValue = bv, resultDigit = rd\<rparr>]))
      else cols)"
  by pat_completeness auto
termination
  by (relation "measure (\<lambda>(p1, p2, mx, i, bin, cols). mx - i)") auto

text \<open>
  The \<open>columns\<close> memo of \<open>VerticalCalculation\<close>: the column list is of one
  of the two record types, according to the operation.
\<close>

datatype Column = AddColumn ColumnCalc | SubColumn SubtractionColumnCalc

record Decomposition =
  columns :: "Column list"
  maxDigits :: nat
  op1Digits :: "int option list"
  op2Digits :: "int option list"
  resultDigits :: "int option list"

definition decompose :: "MathProblem \<Rightarrow> Decomposition" where
  "decompose problem =
     (let op1 = getDigits (operand1 problem);
          op2 = getDigits (operand2 problem);
          result = getDigits (answer problem);
          mx = max (max (length op1) (length op2)) (length result);
          paddedOp1 = padDigits op1 mx;
          paddedOp2 = padDigits op2 mx;
          paddedResult = padDigits result mx
      in if operation problem = Addition then
           \<lparr>columns = map AddColumn (addition_pass paddedOp1 paddedOp2 mx 0 0 []),
            maxDigits = mx, op1Digits = paddedOp1, op2Digits = paddedOp2,
            resultDigits = paddedResult\<rparr>
         else
           \<lparr>columns = map SubColumn (subtraction_pass paddedOp1 paddedOp2 mx 0 0 []),
            maxDigits = mx, op1Digits = paddedOp1, op2Digits = paddedOp2,
            resultDigits = paddedResult\<rparr>)"

text \<open>The two casts \<open>column as ColumnCalc\<close> and \<open>column as SubtractionColumnCalc\<close>.\<close>

fun addition_columns :: "Column list \<Rightarrow> ColumnCalc list" where
  "addition_columns [] = []"
| "addition_columns (AddColumn c # cs) = c # addition_columns cs"
| "addition_columns (SubColumn c # cs) = addition_columns cs"

fun subtraction_columns :: "Column list \<Rightarrow> SubtractionColumnCalc list" where
  "subtraction_columns [] = []"
| "subtraction_columns (SubColumn c # cs) = c # subtraction_columns cs"
| "subtraction_columns (AddColumn c # cs) = subtraction_columns cs"

text \<open>The field \<open>resultDigit\<close>, which both column types have.\<close>

fun column_resultDigit :: "Column \<Rightarrow> int" where
  "column_resultDigit (AddColumn c) = ColumnCalc.resultDigit c"
| "column_resultDigit (SubColumn c) = SubtractionColumnCalc.resultDigit c"

section \<open>Reading a column list back as a number\<close>

text \<open>Digits are listed ones first: \<open>[2, 1]\<close> stands for 12.\<close>

fun from_digits :: "int list \<Rightarrow> int" where
  "from_digits [] = 0"
| "from_digits (d # ds) = d + 10 * from_digits ds"

text \<open>The column invariant of an addition column, and the chaining of carries.\<close>

definition add_col_ok :: "ColumnCalc \<Rightarrow> bool" where
  "add_col_ok c \<longleftrightarrow>
     ColumnCalc.op1Digit c + ColumnCalc.op2Digit c + carryIn c
       = 10 * carryOut c + ColumnCalc.resultDigit c \<and>
     0 \<le> ColumnCalc.resultDigit c \<and> ColumnCalc.resultDigit c \<le> 9"

fun carries_chain :: "int \<Rightarrow> ColumnCalc list \<Rightarrow> bool" where
  "carries_chain cin [] = True"
| "carries_chain cin (c # cs) = (carryIn c = cin \<and> carries_chain (carryOut c) cs)"

fun final_carry :: "int \<Rightarrow> ColumnCalc list \<Rightarrow> int" where
  "final_carry cin [] = cin"
| "final_carry cin (c # cs) = final_carry (carryOut c) cs"

text \<open>The column invariant of a subtraction column, and the chaining of borrows.\<close>

definition sub_col_ok :: "SubtractionColumnCalc \<Rightarrow> bool" where
  "sub_col_ok c \<longleftrightarrow>
     (needsBorrow c \<longleftrightarrow> op1Digit c - borrowIn c < op2Digit c) \<and>
     resultDigit c
       = (if needsBorrow c then op1Digit c - borrowIn c + 10 else op1Digit c - borrowIn c)
         - op2Digit c \<and>
     0 \<le> resultDigit c \<and> resultDigit c \<le> 9"

definition borrowOut :: "SubtractionColumnCalc \<Rightarrow> int" where
  "borrowOut c = (if needsBorrow c then 1 else 0)"

fun borrows_chain :: "int \<Rightarrow> SubtractionColumnCalc list \<Rightarrow> bool" where
  "borrows_chain bin [] = True"
| "borrows_chain bin (c # cs) = (borrowIn c = bin \<and> borrows_chain (borrowOut c) cs)"

fun final_borrow :: "int \<Rightarrow> SubtractionColumnCalc list \<Rightarrow> int" where
  "final_borrow bin [] = bin"
| "final_borrow bin (c # cs) = final_borrow (borrowOut c) cs"

text \<open>The numeric values of the first \<open>n\<close> places of a padded digit array.\<close>

definition digit_vals :: "int option list \<Rightarrow> nat \<Rightarrow> int list" where
  "digit_vals arr n = map (at_or_zero arr) [0..<n]"

section \<open>Narration texts (utils/speech.ts)\<close>

text \<open>
  The two text builders take the phase as a string and switch on it; any other phase
  gives the empty string. Numbers inside the template literals are rendered by
  \<open>show_int\<close>.
\<close>

definition getAdditionSpeechText ::
  "string \<Rightarrow> string \<Rightarrow> int \<Rightarrow> int \<Rightarrow> int \<Rightarrow> int \<Rightarrow> int \<Rightarrow> int \<Rightarrow> string" where
  "getAdditionSpeechText ph pn d1 d2 cin sm rd cout =
     (if ph = ''highlight'' then
        (if cin > 0 then
           ''Look at the '' @ pn @ '' place. '' @ show_int d1 @ '' and '' @ show_int d2
             @ '', plus '' @ show_int cin @ '' carried over.''
         else ''Look at the '' @ pn @ '' place. '' @ show_int d1 @ '' and '' @ show_int d2 @ ''.'')
      else if ph = ''calc'' then
        (if cin > 0 then
           (let text = show_int d1 @ '' plus '' @ show_int d2 @ '' plus '' @ show_int cin
                         @ '' equals '' @ show_int sm @ ''.''
            in if cout > 0 then text @ '' '' @ show_int sm @ '' is more than 9, so we carry!''
               else text)
         else
           (let text = show_int d1 @ '' plus '' @ show_int d2 @ '' equals '' @ show_int sm @ ''.''
            in if cout > 0 then text @ '' '' @ show_int sm @ '' is more than 9, so we carry!''
               else text))
      else if ph = ''carry'' then
        ''Write '' @ show_int rd @ '' in the '' @ pn @ '' place, and carry '' @ show_int cout
          @ '' to the next place.''
      else if ph = ''write'' then
        (if cout = 0 then ''Write '' @ show_int rd @ '' in the '' @ pn @ '' place.'' else [])
      else [])"

definition getSubtractionSpeechText ::
  "string \<Rightarrow> string \<Rightarrow> int \<Rightarrow> int \<Rightarrow> int \<Rightarrow> bool \<Rightarrow> int \<Rightarrow> int \<Rightarrow> string" where
  "getSubtractionSpeechText ph pn d1 d2 bin nb bv rd =
     (let effectiveOp1 = d1 - bin in
      if ph = ''highlight'' then
        (if bin > 0 then
           ''Look at the '' @ pn @ '' place. '' @ show_int d1 @ '' minus '' @ show_int bin
             @ '' gives us '' @ show_int effectiveOp1 @ '', and we subtract '' @ show_int d2 @ ''.''
         else ''Look at the '' @ pn @ '' place. '' @ show_int d1 @ '' minus '' @ show_int d2 @ ''.'')
      else if ph = ''calc'' then
        (if nb then
           show_int effectiveOp1 @ '' is less than '' @ show_int d2
             @ '', so we need to borrow! Borrow 10 to get '' @ show_int bv @ ''.''
         else show_int effectiveOp1 @ '' minus '' @ show_int d2 @ '' equals '' @ show_int rd @ ''.'')
      else if ph = ''carry'' then
        show_int bv @ '' minus '' @ show_int d2 @ '' equals '' @ show_int rd @ ''.''
      else if ph = ''write'' then
        ''Write '' @ show_int rd @ '' in the '' @ pn @ '' place.''
      else [])"

text \<open>
  \<open>getCompletionSpeech\<close>: the draw of \<open>Math.random()\<close> is the argument \<open>rnd\<close>.
  An index outside the array reads \<open>undefined\<close>, which \<open>speakAndWait\<close> treats like
  the empty string; it is the empty string here.
\<close>

definition celebrations :: "string list" where
  "celebrations = [''Correct! Great job!'', ''Yes! You got it right!'', ''Excellent work!'',
                   ''Perfect! Well done!'']"

definition getCompletionSpeech :: "bool \<Rightarrow> int \<Rightarrow> rat \<Rightarrow> string" where
  "getCompletionSpeech correct ans rnd =
     (if correct then
        (let k = \<lfloor>rnd * of_nat (length celebrations)\<rfloor>
         in if 0 \<le> k \<and> nat k < length celebrations then celebrations ! nat k else [])
      else ''The answer is '' @ show_int ans @ ''. Keep trying!'')"

section \<open>The speech manager (utils/speech.ts)\<close>

text \<open>
  \<open>synth\<close> says whether \<open>this.synth\<close> is not null. Times are in milliseconds, as
  rationals. What the browser does with an utterance is an input: it fires \<open>end\<close> or
  \<open>error\<close> some time after \<open>synth.speak\<close>, or it fires neither.
\<close>

record SpeechManager =
  synth :: bool
  enabled :: bool

datatype UtteranceFate = FiresEnd rat | FiresError rat | FiresNothing

text \<open>
  A JavaScript number: a finite value, or one of the three values that are not finite.
  A division by zero gives one of those: \<open>Infinity\<close> or \<open>-Infinity\<close> by the sign of
  the dividend, \<open>NaN\<close> for \<open>0 / 0\<close>.
\<close>

datatype JsNumber = Finite rat | PlusInfinity | MinusInfinity | NotANumber

definition js_divide :: "rat \<Rightarrow> rat \<Rightarrow> JsNumber" where
  "js_divide a b =
     (if b \<noteq> 0 then Finite (a / b)
      else if a > 0 then PlusInfinity else if a < 0 then MinusInfinity else NotANumber)"

text \<open>
  A promise of a number: resolved after some time with a number, rejected, or never
  settled.
\<close>

datatype Promise = Resolved rat JsNumber | Rejected | Pending

text \<open>
  \<open>speak\<close>. Without a synthesizer, or when disabled, the promise resolves at once
  with the estimate. Otherwise it resolves from the utterance's \<open>onend\<close> or
  \<open>onerror\<close> handler with \<open>Date.now() - startTime\<close>; nothing else resolves it and
  nothing rejects it.
\<close>

definition speak :: "SpeechManager \<Rightarrow> string \<Rightarrow> rat \<Rightarrow> UtteranceFate \<Rightarrow> Promise" where
  "speak mgr text rate fate =
     (if \<not> synth mgr \<or> \<not> enabled mgr then
        (let estimatedDuration = js_divide ((of_nat (length text) / 15) * 1000) rate
         in Resolved 0 estimatedDuration)
      else
        (case fate of
           FiresEnd duration \<Rightarrow> Resolved duration (Finite duration)
         | FiresError duration \<Rightarrow> Resolved duration (Finite duration)
         | FiresNothing \<Rightarrow> Pending))"

section \<open>The solve sequencer (VerticalCalculation in Celebration.tsx)\<close>

datatype AnimationSpeed = Slow | Normal | Fast

fun ANIMATION_SPEEDS :: "AnimationSpeed \<Rightarrow> rat" where
  "ANIMATION_SPEEDS Slow = 3 / 2"
| "ANIMATION_SPEEDS Normal = 1"
| "ANIMATION_SPEEDS Fast = 1 / 2"

definition getDuration :: "rat \<Rightarrow> AnimationSpeed \<Rightarrow> rat" where
  "getDuration base speed = base * ANIMATION_SPEEDS speed"

datatype Phase = Highlight | Calc | Carry | Write

record SequencerState =
  currentColumn :: int
  phase :: Phase
  isDone :: bool
  writtenDigits :: "int list"

text \<open>The initial values of the four state hooks; the reset effect sets the same values.\<close>

definition initial_state :: SequencerState where
  "initial_state = \<lparr>currentColumn = - 1, phase = Highlight, isDone = False, writtenDigits = []\<rparr>"

record Props =
  problem :: MathProblem
  isCorrect :: bool
  animationSpeed :: AnimationSpeed

text \<open>
  What a run does not decide itself: the \<open>speechEnabled\<close> setting, the speech manager,
  the fate of each utterance (numbered in the order of the calls of \<open>speak\<close>), the draw of
  \<open>Math.random()\<close> for the completion text, and the await during which the effect's
  cleanup runs, if it does (awaits are numbered from 0 in the order the run reaches them).
\<close>

record Env =
  speechEnabled :: bool
  manager :: SpeechManager
  utterance :: "nat \<Rightarrow> UtteranceFate"
  completion_draw :: rat
  cancel_at :: "nat option"

text \<open>
  What can be observed of a run, in order: calls of \<open>speechManager.stop()\<close>, calls of
  \<open>speechManager.speak\<close>, time passing while the run awaits, the four state setters,
  the call \<open>onComplete?.()\<close>, and the cleanup setting \<open>cancelled = true\<close> (its call of
  \<open>speechManager.stop()\<close> is the \<open>EvStop\<close> that follows).
\<close>

datatype Event =
    EvStop
  | EvSpeak string rat
  | EvWait rat
  | EvSetCurrentColumn int
  | EvSetPhase Phase
  | EvPush int
  | EvSetIsDone bool
  | EvComplete
  | EvCancel

datatype Halt = Stuck | Threw

record Run =
  cancelled :: bool
  awaits :: nat
  speaks :: nat
  halt :: "Halt option"
  trace :: "Event list"

definition start_run :: Run where
  "start_run = \<lparr>cancelled = False, awaits = 0, speaks = 0, halt = None, trace = []\<rparr>"

definition emit :: "Event list \<Rightarrow> Run \<Rightarrow> Run" where
  "emit evs r = r\<lparr>trace := trace r @ evs\<rparr>"

text \<open>
  While the run is suspended at an await, the effect's cleanup may run:
  \<open>cancelled = true; speechManager.stop()\<close>.
\<close>

definition cleanup_during :: "Env \<Rightarrow> Run \<Rightarrow> Run" where
  "cleanup_during env r =
     (if cancel_at env = Some (awaits r)
      then (emit [EvCancel, EvStop] r)\<lparr>cancelled := True\<rparr> else r)"

text \<open>An await that resumes after \<open>ms\<close> milliseconds, and one that never resumes.\<close>

definition await_for :: "Env \<Rightarrow> rat \<Rightarrow> Run \<Rightarrow> Run" where
  "await_for env ms r =
     (let r1 = cleanup_during env (emit [EvWait ms] r) in r1\<lparr>awaits := awaits r1 + 1\<rparr>)"

definition await_forever :: "Env \<Rightarrow> Run \<Rightarrow> Run" where
  "await_forever env r = (cleanup_during env r)\<lparr>halt := Some Stuck\<rparr>"

definition speech_rate :: "AnimationSpeed \<Rightarrow> rat" where
  "speech_rate speed = (if speed = Slow then 9 / 10 else if speed = Fast then 13 / 10 else 1)"

text \<open>
  The delay of the second timer of \<open>speakAndWait\<close>:
  \<open>Math.max(minWait, speechDuration + 200) - speechDuration\<close>. For a duration that is
  not finite the difference is \<open>NaN\<close> or \<open>Infinity\<close>, which \<open>setTimeout\<close> takes
  as 0; the sequencer never gets there, its speech rates are 0.9, 1 and 1.3.
\<close>

definition remaining_wait :: "rat \<Rightarrow> JsNumber \<Rightarrow> rat" where
  "remaining_wait minWait speechDuration =
     (case speechDuration of
        Finite d \<Rightarrow> (let waitTime = max minWait (d + 200) in waitTime - d)
      | _ \<Rightarrow> 0)"

text \<open>
  \<open>speakAndWait\<close>. Awaiting a promise that never settles leaves the run stuck; awaiting
  a rejected one would throw out of \<open>runAnimation\<close>.
\<close>

definition speakAndWait :: "Env \<Rightarrow> AnimationSpeed \<Rightarrow> string \<Rightarrow> rat \<Rightarrow> Run \<Rightarrow> Run" where
  "speakAndWait env speed text minWait r =
     (if speechEnabled env \<and> text \<noteq> [] then
        (let rate = speech_rate speed;
             r1 = (emit [EvSpeak text rate] r)\<lparr>speaks := speaks r + 1\<rparr>
         in case speak (manager env) text rate (utterance env (speaks r)) of
              Pending \<Rightarrow> await_forever env r1
            | Rejected \<Rightarrow> r1\<lparr>halt := Some Threw\<rparr>
            | Resolved elapsed speechDuration \<Rightarrow>
                (let r2 = await_for env elapsed r1
                 in await_for env (remaining_wait minWait speechDuration) r2))
      else await_for env minWait r)"

text \<open>
  The statements of \<open>runAnimation\<close>. \<open>Delay\<close> is
  \<open>await new Promise(r => setTimeout(r, ms))\<close>, \<open>ReturnIfCancelled\<close> is
  \<open>if (cancelled) return\<close>.
\<close>

datatype Instr =
    StopSpeech
  | Delay rat
  | SpeakAndWait string rat
  | ReturnIfCancelled
  | SetCurrentColumn int
  | SetPhase Phase
  | PushWrittenDigit int
  | SetIsDone bool
  | CallOnComplete

datatype Outcome = Finished | Returned | Halted

fun exec :: "Env \<Rightarrow> AnimationSpeed \<Rightarrow> Instr list \<Rightarrow> Run \<Rightarrow> Outcome \<times> Run" where
  "exec env speed [] r = (Finished, r)"
| "exec env speed (StopSpeech # rest) r = exec env speed rest (emit [EvStop] r)"
| "exec env speed (Delay ms # rest) r = exec env speed rest (await_for env ms r)"
| "exec env speed (SpeakAndWait text minWait # rest) r =
     (let r1 = speakAndWait env speed text minWait r
      in if halt r1 = None then exec env speed rest r1 else (Halted, r1))"
| "exec env speed (ReturnIfCancelled # rest) r =
     (if cancelled r then (Returned, r) else exec env speed rest r)"
| "exec env speed (SetCurrentColumn c # rest) r = exec env speed rest (emit [EvSetCurrentColumn c] r)"
| "exec env speed (SetPhase p # rest) r = exec env speed rest (emit [EvSetPhase p] r)"
| "exec env speed (PushWrittenDigit d # rest) r = exec env speed rest (emit [EvPush d] r)"
| "exec env speed (SetIsDone b # rest) r = exec env speed rest (emit [EvSetIsDone b] r)"
| "exec env speed (CallOnComplete # rest) r = exec env speed rest (emit [EvComplete] r)"

text \<open>
  The four texts of a column, for the phase names \<open>highlight\<close>, \<open>calc\<close>,
  \<open>carry\<close> and \<open>write\<close>. The source chooses the builder by
  \<open>problem.operation\<close> and casts the column; the same operation decides the type of
  the columns, so the choice is made on the column here.
\<close>

fun column_text :: "string \<Rightarrow> Column \<Rightarrow> string" where
  "column_text ph (AddColumn c) =
     getAdditionSpeechText ph (ColumnCalc.placeName c) (ColumnCalc.op1Digit c)
       (ColumnCalc.op2Digit c) (carryIn c) (sum_col c) (ColumnCalc.resultDigit c) (carryOut c)"
| "column_text ph (SubColumn c) =
     getSubtractionSpeechText ph (placeName c) (op1Digit c) (op2Digit c) (borrowIn c)
       (needsBorrow c) (borrowedValue c) (resultDigit c)"

text \<open>
  \<open>hasCarryOrBorrow\<close>. The column list is built from the same \<open>problem.operation\<close>,
  so the cast always fits; a column of the other type would read \<open>undefined\<close>, which
  counts as false.
\<close>

fun hasCarryOrBorrow :: "Operation \<Rightarrow> Column \<Rightarrow> bool" where
  "hasCarryOrBorrow Addition (AddColumn c) = (carryOut c > 0)"
| "hasCarryOrBorrow Subtraction (SubColumn c) = needsBorrow c"
| "hasCarryOrBorrow opn c = False"

text \<open>The wait of the write phase: \<open>if (writeText) speakAndWait(...) else setTimeout(...)\<close>.\<close>

definition write_wait :: "rat \<Rightarrow> Column \<Rightarrow> Instr" where
  "write_wait baseTiming column =
     (if column_text ''write'' column \<noteq> []
      then SpeakAndWait (column_text ''write'' column) (baseTiming * (4 / 5))
      else Delay (baseTiming * (4 / 5)))"

text \<open>The body of the loop over the columns, for the column with index \<open>col\<close>.\<close>

definition column_steps :: "Operation \<Rightarrow> rat \<Rightarrow> nat \<Rightarrow> Column \<Rightarrow> Instr list" where
  "column_steps opn baseTiming col column =
     [ReturnIfCancelled,
      SetCurrentColumn (int col),
      SetPhase Highlight,
      SpeakAndWait (column_text ''highlight'' column) baseTiming,
      ReturnIfCancelled,
      SetPhase Calc,
      SpeakAndWait (column_text ''calc'' column) (baseTiming * (3 / 2)),
      ReturnIfCancelled]
     @ (if hasCarryOrBorrow opn column
        then [SetPhase Carry,
              SpeakAndWait (column_text ''carry'' column) (baseTiming * (6 / 5)),
              ReturnIfCancelled]
        else [])
     @ [SetPhase Write,
        PushWrittenDigit (column_resultDigit column),
        write_wait baseTiming column,
        ReturnIfCancelled]"

definition loop_steps :: "Operation \<Rightarrow> rat \<Rightarrow> Column list \<Rightarrow> nat \<Rightarrow> Instr list" where
  "loop_steps opn baseTiming cols n =
     concat (map (\<lambda>col. column_steps opn baseTiming col (cols ! col)) [0..<n])"

definition runAnimation_steps :: "Props \<Rightarrow> Env \<Rightarrow> Instr list" where
  "runAnimation_steps props env =
     (let baseTiming = getDuration 600 (animationSpeed props);
          d = decompose (problem props)
      in [StopSpeech, Delay baseTiming, ReturnIfCancelled]
         @ loop_steps (operation (problem props)) baseTiming (columns d) (maxDigits d)
         @ [SetIsDone True,
            SpeakAndWait
              (getCompletionSpeech (isCorrect props) (answer (problem props)) (completion_draw env))
              baseTiming,
            ReturnIfCancelled,
            CallOnComplete])"

definition runAnimation :: "Props \<Rightarrow> Env \<Rightarrow> Outcome \<times> Run" where
  "runAnimation props env = exec env (animationSpeed props) (runAnimation_steps props env) start_run"

text \<open>React applying the state setters, in the order of the calls.\<close>

fun apply_event :: "SequencerState \<Rightarrow> Event \<Rightarrow> SequencerState" where
  "apply_event s (EvSetCurrentColumn c) = s\<lparr>currentColumn := c\<rparr>"
| "apply_event s (EvSetPhase p) = s\<lparr>phase := p\<rparr>"
| "apply_event s (EvPush d) = s\<lparr>writtenDigits := writtenDigits s @ [d]\<rparr>"
| "apply_event s (EvSetIsDone b) = s\<lparr>isDone := b\<rparr>"
| "apply_event s e = s"

text \<open>The state before the first event and after each event of a trace.\<close>

fun states :: "SequencerState \<Rightarrow> Event list \<Rightarrow> SequencerState list" where
  "states s [] = [s]"
| "states s (e # es) = s # states (apply_event s e) es"

section \<open>The problem generator (utils/mathGenerator.ts)\<close>

text \<open>
  The random source: \<open>rnd k\<close> is the value of the \<open>k\<close>-th call of \<open>Math.random()\<close>
  and \<open>clock k\<close> the value of \<open>Date.now()\<close> at that moment. Every function that
  draws takes the number of draws made so far and returns it updated.
\<close>

record Source =
  rnd :: "nat \<Rightarrow> rat"
  clock :: "nat \<Rightarrow> int"

text \<open>
  Of a level configuration only \<open>maxNumber\<close> and \<open>operations\<close> take part in the
  generation; the display fields are left out.
\<close>

record LevelConfig =
  maxNumber :: int
  operations :: "Operation list"

datatype QuizLevel =
    AddSub10 | AddSub20 | AddSub100 | AddSub1000 | Mixed10 | Mixed20 | Mixed100 | Mixed1000

fun LEVEL_CONFIGS :: "QuizLevel \<Rightarrow> LevelConfig" where
  "LEVEL_CONFIGS AddSub10 = \<lparr>maxNumber = 10, operations = [Addition, Subtraction]\<rparr>"
| "LEVEL_CONFIGS AddSub20 = \<lparr>maxNumber = 20, operations = [Addition, Subtraction]\<rparr>"
| "LEVEL_CONFIGS AddSub100 = \<lparr>maxNumber = 100, operations = [Addition, Subtraction]\<rparr>"
| "LEVEL_CONFIGS AddSub1000 = \<lparr>maxNumber = 1000, operations = [Addition, Subtraction]\<rparr>"
| "LEVEL_CONFIGS Mixed10 = \<lparr>maxNumber = 10, operations = [Addition, Subtraction]\<rparr>"
| "LEVEL_CONFIGS Mixed20 = \<lparr>maxNumber = 20, operations = [Addition, Subtraction]\<rparr>"
| "LEVEL_CONFIGS Mixed100 = \<lparr>maxNumber = 100, operations = [Addition, Subtraction]\<rparr>"
| "LEVEL_CONFIGS Mixed1000 = \<lparr>maxNumber = 1000, operations = [Addition, Subtraction]\<rparr>"

definition generateId :: "Source \<Rightarrow> nat \<Rightarrow> (int \<times> rat) \<times> nat" where
  "generateId src k = ((clock src k, rnd src k), Suc k)"

definition getRandomInt :: "Source \<Rightarrow> int \<Rightarrow> int \<Rightarrow> nat \<Rightarrow> int \<times> nat" where
  "getRandomInt src lo hi k = (\<lfloor>rnd src k * of_int (hi - lo + 1)\<rfloor> + lo, Suc k)"

text \<open>An index outside \<open>operations\<close> reads \<open>undefined\<close>, here \<open>None\<close>.\<close>

definition getRandomOperation :: "Source \<Rightarrow> Operation list \<Rightarrow> nat \<Rightarrow> Operation option \<times> nat" where
  "getRandomOperation src ops k =
     (let index = \<lfloor>rnd src k * of_nat (length ops)\<rfloor>
      in (if 0 \<le> index \<and> nat index < length ops then Some (ops ! nat index) else None, Suc k))"

definition checkRequiresCarry :: "int \<Rightarrow> int \<Rightarrow> Operation \<Rightarrow> bool" where
  "checkRequiresCarry a b opn =
     (if opn = Addition then
        (let onesA = js_rem a 10; onesB = js_rem b 10 in onesA + onesB \<ge> 10)
      else
        (let onesA = js_rem a 10; onesB = js_rem b 10 in onesA < onesB))"

definition generateAdditionProblem :: "Source \<Rightarrow> int \<Rightarrow> nat \<Rightarrow> MathProblem \<times> nat" where
  "generateAdditionProblem src maxN k =
     (let (op1, k1) = getRandomInt src 0 maxN k;
          maxOperand2 = maxN - op1;
          (op2, k2) = getRandomInt src 0 maxOperand2 k1;
          ans = op1 + op2;
          rc = checkRequiresCarry op1 op2 Addition;
          (ident, k3) = generateId src k2
      in (\<lparr>id_tok = ident, operand1 = op1, operand2 = op2, operation = Addition, answer = ans,
           requiresCarry = rc\<rparr>, k3))"

definition generateSubtractionProblem :: "Source \<Rightarrow> int \<Rightarrow> nat \<Rightarrow> MathProblem \<times> nat" where
  "generateSubtractionProblem src maxN k =
     (let (op1, k1) = getRandomInt src 0 maxN k;
          (op2, k2) = getRandomInt src 0 op1 k1;
          ans = op1 - op2;
          rc = checkRequiresCarry op1 op2 Subtraction;
          (ident, k3) = generateId src k2
      in (\<lparr>id_tok = ident, operand1 = op1, operand2 = op2, operation = Subtraction, answer = ans,
           requiresCarry = rc\<rparr>, k3))"

text \<open>\<open>generateProblem\<close> for a given configuration, and for the configuration of a level.\<close>

definition generateProblem_config :: "Source \<Rightarrow> LevelConfig \<Rightarrow> nat \<Rightarrow> MathProblem \<times> nat" where
  "generateProblem_config src config k =
     (let (opn, k1) = getRandomOperation src (operations config) k
      in if opn = Some Addition then generateAdditionProblem src (maxNumber config) k1
         else generateSubtractionProblem src (maxNumber config) k1)"

definition generateProblem :: "Source \<Rightarrow> QuizLevel \<Rightarrow> nat \<Rightarrow> MathProblem \<times> nat" where
  "generateProblem src level k = generateProblem_config src (LEVEL_CONFIGS level) k"

definition isDuplicateProblem :: "MathProblem \<Rightarrow> MathProblem \<Rightarrow> bool" where
  "isDuplicateProblem a b \<longleftrightarrow>
     operand1 a = operand1 b \<and> operand2 a = operand2 b \<and> operation a = operation b"

text \<open>
  The first loop of \<open>generateQuiz\<close>, bounded by \<open>maxAttempts\<close>, and the second, which
  fills up. \<open>problems.slice(-3)\<close> is the last three problems.
\<close>

function quiz_attempts ::
  "Source \<Rightarrow> LevelConfig \<Rightarrow> nat \<Rightarrow> nat \<Rightarrow> MathProblem list \<Rightarrow> nat \<Rightarrow> nat \<Rightarrow> MathProblem list \<times> nat" where
  "quiz_attempts src config count maxAttempts problems attempts k =
     (if length problems < count \<and> attempts < maxAttempts then
        (let (newProblem, k1) = generateProblem_config src config k;
             problems1 =
               (if problems = [] \<or> \<not> isDuplicateProblem newProblem (last problems) then
                  (let recentProblems = drop (length problems - 3) problems;
                       isDuplicate = list_ex (\<lambda>p. isDuplicateProblem p newProblem) recentProblems
                   in if \<not> isDuplicate then problems @ [newProblem] else problems)
                else problems)
         in quiz_attempts src config count maxAttempts problems1 (Suc attempts) k1)
      else (problems, k))"
  by pat_completeness auto
termination
  by (relation "measure (\<lambda>(src, config, count, maxAttempts, problems, attempts, k). maxAttempts - attempts)")
    auto

function quiz_fill ::
  "Source \<Rightarrow> LevelConfig \<Rightarrow> nat \<Rightarrow> MathProblem list \<Rightarrow> nat \<Rightarrow> MathProblem list \<times> nat" where
  "quiz_fill src config count problems k =
     (if length problems < count then
        (let (newProblem, k1) = generateProblem_config src config k
         in quiz_fill src config count (problems @ [newProblem]) k1)
      else (problems, k))"
  by pat_completeness auto
termination
  by (relation "measure (\<lambda>(src, config, count, problems, k). count - length problems)")
    (auto split: prod.splits)

definition generateQuiz_config :: "Source \<Rightarrow> LevelConfig \<Rightarrow> nat \<Rightarrow> nat \<Rightarrow> MathProblem list \<times> nat" where
  "generateQuiz_config src config count k =
     (let maxAttempts = count * 10;
          (problems, k1) = quiz_attempts src config count maxAttempts [] 0 k
      in quiz_fill src config count problems k1)"

definition generateQuiz :: "Source \<Rightarrow> QuizLevel \<Rightarrow> nat \<Rightarrow> nat \<Rightarrow> MathProblem list \<times> nat" where
  "generateQuiz src level count k = generateQuiz_config src (LEVEL_CONFIGS level) count k"

section \<open>Notions used in the statements\<close>

text \<open>The events that are calls of the four state setters.\<close>

fun is_setter :: "Event \<Rightarrow> bool" where
  "is_setter (EvSetCurrentColumn c) = True"
| "is_setter (EvSetPhase p) = True"
| "is_setter (EvPush d) = True"
| "is_setter (EvSetIsDone b) = True"
| "is_setter e = False"

text \<open>The states the component goes through: the state before the first setter call and
  after each one.\<close>

definition history :: "SequencerState \<Rightarrow> Event list \<Rightarrow> SequencerState list" where
  "history s tr = states s (filter is_setter tr)"

text \<open>The phases a trace enters, each paired with the column that is current when
  \<open>setPhase\<close> is called.\<close>

fun phase_entries :: "SequencerState \<Rightarrow> Event list \<Rightarrow> (int \<times> Phase) list" where
  "phase_entries s [] = []"
| "phase_entries s (EvSetPhase p # es) = (currentColumn s, p) # phase_entries (s\<lparr>phase := p\<rparr>) es"
| "phase_entries s (e # es) = phase_entries (apply_event s e) es"

text \<open>Whether a column has a carry out (addition) or needs a borrow (subtraction).\<close>

fun needs_carry_phase :: "Column \<Rightarrow> bool" where
  "needs_carry_phase (AddColumn c) = (carryOut c > 0)"
| "needs_carry_phase (SubColumn c) = needsBorrow c"

text \<open>The phase sequence the specification gives for one column and for all columns in order.\<close>

definition expected_column_phases :: "nat \<Rightarrow> Column \<Rightarrow> (int \<times> Phase) list" where
  "expected_column_phases i c =
     [(int i, Highlight), (int i, Calc)]
     @ (if needs_carry_phase c then [(int i, Carry)] else [])
     @ [(int i, Write)]"

definition expected_phases :: "Column list \<Rightarrow> (int \<times> Phase) list" where
  "expected_phases cols = concat (map (\<lambda>i. expected_column_phases i (cols ! i)) [0..<length cols])"

text \<open>
  The \<open>resultDigit\<close> fields of the columns of a problem, in the order of the columns:
  those of the addition records for an addition, of the subtraction records otherwise.
\<close>

definition result_digits :: "MathProblem \<Rightarrow> int list" where
  "result_digits p =
     (if operation p = Addition
      then map ColumnCalc.resultDigit (addition_columns (columns (decompose p)))
      else map SubtractionColumnCalc.resultDigit (subtraction_columns (columns (decompose p))))"

text \<open>
  The write phase and the accumulator, for the list \<open>ds\<close> of the digits that belong to
  the columns: every \<open>setPhase(write)\<close> is followed at once by the push of the digit
  \<open>ds ! i\<close> of the column \<open>i\<close> that is current, and no digit is pushed anywhere
  else. A trace that ends between the two is refused.
\<close>

fun write_sync :: "int list \<Rightarrow> SequencerState \<Rightarrow> Event list \<Rightarrow> bool" where
  "write_sync ds s [] = True"
| "write_sync ds s (EvSetPhase Write # EvPush d # es) =
     (0 \<le> currentColumn s \<and> nat (currentColumn s) < length ds \<and>
      d = ds ! nat (currentColumn s) \<and>
      write_sync ds (apply_event (apply_event s (EvSetPhase Write)) (EvPush d)) es)"
| "write_sync ds s (EvSetPhase Write # es) = False"
| "write_sync ds s (EvPush d # es) = False"
| "write_sync ds s (e # es) = write_sync ds (apply_event s e) es"

text \<open>After the cleanup (\<open>EvCancel\<close>) a trace may contain only the cleanup's call of
  \<open>speechManager.stop()\<close> and then waits.\<close>

fun is_wait :: "Event \<Rightarrow> bool" where
  "is_wait (EvWait ms) = True"
| "is_wait e = False"

fun after_cancel_ok :: "Event list \<Rightarrow> bool" where
  "after_cancel_ok [] = True"
| "after_cancel_ok (EvCancel # es) = (case es of EvStop # ws \<Rightarrow> list_all is_wait ws | _ \<Rightarrow> False)"
| "after_cancel_ok (e # es) = after_cancel_ok es"

text \<open>Every call of \<open>speak\<close> that a run can make resolves: speech is off, the fallback
  branch is taken, or no utterance stays without an event.\<close>

definition settles :: "Env \<Rightarrow> bool" where
  "settles env \<longleftrightarrow>
     \<not> speechEnabled env \<or> \<not> synth (manager env) \<or> \<not> enabled (manager env) \<or>
     (\<forall>n. utterance env n \<noteq> FiresNothing)"

text \<open>The state after \<open>setIsDone(true)\<close> at the end of the loop over the columns.\<close>

definition done_state :: "Column list \<Rightarrow> SequencerState" where
  "done_state cols =
     \<lparr>currentColumn = int (length cols) - 1, phase = (if cols = [] then Highlight else Write),
      isDone = True, writtenDigits = map column_resultDigit cols\<rparr>"

text \<open>The completion text of a run.\<close>

definition completion_text :: "Props \<Rightarrow> Env \<Rightarrow> string" where
  "completion_text props env =
     getCompletionSpeech (isCorrect props) (answer (problem props)) (completion_draw env)"

text \<open>Time that passes during a trace: the sum of its waits.\<close>

fun wait_of :: "Event \<Rightarrow> rat" where
  "wait_of (EvWait ms) = ms"
| "wait_of e = 0"

definition elapsed :: "Event list \<Rightarrow> rat" where
  "elapsed tr = sum_list (map wait_of tr)"

text \<open>The number of calls of \<open>onComplete\<close> in a trace.\<close>

definition completions :: "Event list \<Rightarrow> nat" where
  "completions tr = length (filter (\<lambda>e. e = EvComplete) tr)"

text \<open>What the specification asks of a generated problem, for the maximum \<open>m\<close>.\<close>

definition valid_problem :: "int \<Rightarrow> MathProblem \<Rightarrow> bool" where
  "valid_problem m p \<longleftrightarrow>
     0 \<le> operand1 p \<and> operand1 p \<le> m \<and> 0 \<le> operand2 p \<and> operand2 p \<le> m \<and>
     (if operation p = Addition
      then answer p = operand1 p + operand2 p \<and> answer p \<le> m
      else operand2 p \<le> operand1 p \<and> answer p = operand1 p - operand2 p \<and> 0 \<le> answer p)"

definition unit_source :: "Source \<Rightarrow> bool" where
  "unit_source src \<longleftrightarrow> (\<forall>k. 0 \<le> rnd src k \<and> rnd src k < 1)"

section \<open>Notions used in the proofs\<close>

text \<open>Predicates used by the loop invariants of the two passes.\<close>

definition dec_digits :: "int list \<Rightarrow> bool" where
  "dec_digits ds \<longleftrightarrow> (\<forall>d \<in> set ds. 0 \<le> d \<and> d \<le> 9)"

definition digits_ok :: "int option list \<Rightarrow> bool" where
  "digits_ok arr \<longleftrightarrow> (\<forall>j. 0 \<le> at_or_zero arr j \<and> at_or_zero arr j \<le> 9)"

definition add_inv ::
  "int option list \<Rightarrow> int option list \<Rightarrow> nat \<Rightarrow> int \<Rightarrow> ColumnCalc list \<Rightarrow> bool" where
  "add_inv p1 p2 i cin cols \<longleftrightarrow>
     length cols = i \<and> (\<forall>c \<in> set cols. add_col_ok c) \<and> carries_chain 0 cols \<and>
     final_carry 0 cols = cin \<and> 0 \<le> cin \<and> cin \<le> 1 \<and>
     map ColumnCalc.op1Digit cols = digit_vals p1 i \<and>
     map ColumnCalc.op2Digit cols = digit_vals p2 i \<and>
     map ColumnCalc.placeIndex cols = [0..<i] \<and>
     from_digits (map ColumnCalc.resultDigit cols) + cin * 10 ^ i
       = from_digits (digit_vals p1 i) + from_digits (digit_vals p2 i)"

definition sub_inv ::
  "int option list \<Rightarrow> int option list \<Rightarrow> nat \<Rightarrow> int \<Rightarrow> SubtractionColumnCalc list \<Rightarrow> bool" where
  "sub_inv p1 p2 i bin cols \<longleftrightarrow>
     length cols = i \<and> (\<forall>c \<in> set cols. sub_col_ok c) \<and> borrows_chain 0 cols \<and>
     final_borrow 0 cols = bin \<and> 0 \<le> bin \<and> bin \<le> 1 \<and>
     map op1Digit cols = digit_vals p1 i \<and>
     map op2Digit cols = digit_vals p2 i \<and>
     map placeIndex cols = [0..<i] \<and>
     from_digits (map resultDigit cols) - bin * 10 ^ i
       = from_digits (digit_vals p1 i) - from_digits (digit_vals p2 i)"

text \<open>The events an instruction emits whatever the environment does, and those of a program.\<close>

fun static_of :: "Instr \<Rightarrow> Event list" where
  "static_of StopSpeech = [EvStop]"
| "static_of (SetCurrentColumn c) = [EvSetCurrentColumn c]"
| "static_of (SetPhase p) = [EvSetPhase p]"
| "static_of (PushWrittenDigit d) = [EvPush d]"
| "static_of (SetIsDone b) = [EvSetIsDone b]"
| "static_of CallOnComplete = [EvComplete]"
| "static_of i = []"

definition script :: "Instr list \<Rightarrow> Event list" where
  "script prog = concat (map static_of prog)"

text \<open>A class of events none of which is emitted by an await, a speech or a cleanup.\<close>

definition dynamic_free :: "(Event \<Rightarrow> bool) \<Rightarrow> bool" where
  "dynamic_free P \<longleftrightarrow> \<not> P EvStop \<and> \<not> P EvCancel \<and> (\<forall>ms. \<not> P (EvWait ms)) \<and> (\<forall>t x. \<not> P (EvSpeak t x))"

text \<open>The setter calls of one column, of the loop up to column \<open>n\<close>, and of a whole run.\<close>

definition column_script :: "Operation \<Rightarrow> nat \<Rightarrow> Column \<Rightarrow> Event list" where
  "column_script opn i c =
     [EvSetCurrentColumn (int i), EvSetPhase Highlight, EvSetPhase Calc]
     @ (if hasCarryOrBorrow opn c then [EvSetPhase Carry] else [])
     @ [EvSetPhase Write, EvPush (column_resultDigit c)]"

definition loop_script :: "Operation \<Rightarrow> Column list \<Rightarrow> nat \<Rightarrow> Event list" where
  "loop_script opn cols n = concat (map (\<lambda>i. column_script opn i (cols ! i)) [0..<n])"

definition run_script :: "Props \<Rightarrow> Event list" where
  "run_script props =
     [EvStop]
     @ loop_script (operation (problem props)) (columns (decompose (problem props)))
         (maxDigits (decompose (problem props)))
     @ [EvSetIsDone True, EvComplete]"

definition run_setters :: "Props \<Rightarrow> Event list" where
  "run_setters props =
     loop_script (operation (problem props)) (columns (decompose (problem props)))
       (length (columns (decompose (problem props))))
     @ [EvSetIsDone True]"

text \<open>The state after \<open>n\<close> columns, and what holds of the states up to there.\<close>

definition digits_upto :: "Column list \<Rightarrow> nat \<Rightarrow> int list" where
  "digits_upto cols n = map column_resultDigit (take n cols)"

definition loop_state :: "Column list \<Rightarrow> nat \<Rightarrow> SequencerState" where
  "loop_state cols n =
     \<lparr>currentColumn = int n - 1, phase = (if n = 0 then Highlight else Write), isDone = False,
      writtenDigits = digits_upto cols n\<rparr>"

definition loop_ok :: "Column list \<Rightarrow> nat \<Rightarrow> SequencerState list \<Rightarrow> bool" where
  "loop_ok cols n sts \<longleftrightarrow>
     sorted (map currentColumn sts) \<and> sorted_wrt prefix (map writtenDigits sts) \<and>
     (\<forall>x \<in> set sts. \<not> isDone x \<and> currentColumn x < int n \<and>
        prefix (writtenDigits x) (digits_upto cols n))"

text \<open>Events that are not setter calls nor the completion callback; events that leave the
  current column and the write pair alone.\<close>

fun quiet :: "Event \<Rightarrow> bool" where
  "quiet EvStop = True"
| "quiet (EvSpeak t x) = True"
| "quiet (EvWait ms) = True"
| "quiet EvCancel = True"
| "quiet e = False"

fun neutral :: "Event \<Rightarrow> bool" where
  "neutral (EvSetPhase p) = (p \<noteq> Write)"
| "neutral (EvPush d) = False"
| "neutral (EvSetCurrentColumn c) = False"
| "neutral e = True"

text \<open>\<open>write_sync\<close> on programs: \<open>SetPhase Write\<close> is directly followed by the push.\<close>

fun prog_sync :: "Column list \<Rightarrow> int \<Rightarrow> Instr list \<Rightarrow> bool" where
  "prog_sync cols cur [] = True"
| "prog_sync cols cur (SetCurrentColumn c # rest) = prog_sync cols c rest"
| "prog_sync cols cur (SetPhase Write # PushWrittenDigit d # rest) =
     (0 \<le> cur \<and> nat cur < length cols \<and> d = column_resultDigit (cols ! nat cur) \<and>
      prog_sync cols cur rest)"
| "prog_sync cols cur (SetPhase Write # rest) = False"
| "prog_sync cols cur (PushWrittenDigit d # rest) = False"
| "prog_sync cols cur (i # rest) = prog_sync cols cur rest"

text \<open>Every setter call, speech and callback of a program comes after a check of the
  \<open>cancelled\<close> flag with no await in between; the result is whether that holds at
  the end of the program.\<close>

fun guard :: "bool \<Rightarrow> Instr list \<Rightarrow> bool option" where
  "guard g [] = Some g"
| "guard g (ReturnIfCancelled # rest) = guard True rest"
| "guard g (Delay ms # rest) = guard False rest"
| "guard g (i # rest) = (if g then guard (case i of SpeakAndWait t m \<Rightarrow> False | _ \<Rightarrow> g) rest else None)"

text \<open>The invariant of a run for cancellation.\<close>

definition cancelled_quietly :: "Event list \<Rightarrow> bool" where
  "cancelled_quietly tr \<longleftrightarrow>
     (\<exists>pre ws. tr = pre @ [EvCancel, EvStop] @ ws \<and> EvCancel \<notin> set pre \<and> list_all is_wait ws)"

definition cancel_inv :: "Env \<Rightarrow> Run \<Rightarrow> bool" where
  "cancel_inv env r \<longleftrightarrow>
     (if cancelled r
      then cancelled_quietly (trace r) \<and>
           (halt r = None \<longrightarrow> (\<forall>k. cancel_at env = Some k \<longrightarrow> k < awaits r))
      else EvCancel \<notin> set (trace r))"

text \<open>The program of a run up to the end of the loop.\<close>

definition run_body :: "Props \<Rightarrow> Instr list" where
  "run_body props =
     [StopSpeech, Delay (getDuration 600 (animationSpeed props)), ReturnIfCancelled]
     @ loop_steps (operation (problem props)) (getDuration 600 (animationSpeed props))
         (columns (decompose (problem props))) (maxDigits (decompose (problem props)))"

section \<open>Concrete problems, props and environments\<close>

text \<open>Scenario 1 of the specification (7 + 5) and scenario 2 (12 - 5).\<close>

definition p75 :: MathProblem where
  "p75 = \<lparr>id_tok = (0, 0), operand1 = 7, operand2 = 5, operation = Addition, answer = 12,
          requiresCarry = True\<rparr>"

definition p12_5 :: MathProblem where
  "p12_5 = \<lparr>id_tok = (0, 0), operand1 = 12, operand2 = 5, operation = Subtraction, answer = 7,
          requiresCarry = True\<rparr>"

definition p2_3 :: MathProblem where
  "p2_3 = \<lparr>id_tok = (0, 0), operand1 = 2, operand2 = 3, operation = Addition, answer = 5,
           requiresCarry = False\<rparr>"

definition props75 :: Props where
  "props75 = \<lparr>problem = p75, isCorrect = True, animationSpeed = Normal\<rparr>"

definition props12_5 :: Props where
  "props12_5 = \<lparr>problem = p12_5, isCorrect = True, animationSpeed = Normal\<rparr>"

definition props2_3 :: Props where
  "props2_3 = \<lparr>problem = p2_3, isCorrect = False, animationSpeed = Fast\<rparr>"

definition env0 :: Env where
  "env0 = \<lparr>speechEnabled = True, manager = \<lparr>synth = True, enabled = True\<rparr>,
           utterance = (\<lambda>n. FiresEnd 1000), completion_draw = 1 / 3, cancel_at = None\<rparr>"

text \<open>Speech enabled in the settings, but no synthesizer in the browser.\<close>

definition env_nosynth :: Env where
  "env_nosynth = \<lparr>speechEnabled = True, manager = \<lparr>synth = False, enabled = True\<rparr>,
           utterance = (\<lambda>n. FiresNothing), completion_draw = 0, cancel_at = None\<rparr>"

text \<open>Utterances whose \<open>end\<close> and \<open>error\<close> events never fire.\<close>

definition env_silent :: Env where
  "env_silent = \<lparr>speechEnabled = True, manager = \<lparr>synth = True, enabled = True\<rparr>,
           utterance = (\<lambda>n. FiresNothing), completion_draw = 0, cancel_at = None\<rparr>"

text \<open>The third utterance never fires an event; the others end after 800 ms.\<close>

definition env_third_silent :: Env where
  "env_third_silent = \<lparr>speechEnabled = True, manager = \<lparr>synth = True, enabled = True\<rparr>,
           utterance = (\<lambda>n. if n = 2 then FiresNothing else FiresEnd 800), completion_draw = 0,
           cancel_at = None\<rparr>"


text \<open>A run of 7 + 5 whose cleanup runs during its fifth await, in the calc phase.\<close>

definition env_cancel4 :: Env where
  "env_cancel4 = \<lparr>speechEnabled = True, manager = \<lparr>synth = True, enabled = True\<rparr>,
           utterance = (\<lambda>n. FiresEnd 1000), completion_draw = 1 / 3, cancel_at = Some 4\<rparr>"

text \<open>A source that cycles through 0, 1/4, 1/2, 3/4, and a configuration with maximum 0.\<close>

definition src0 :: Source where
  "src0 = \<lparr>rnd = (\<lambda>k. of_nat (k mod 4) / 4), clock = (\<lambda>k. 1000 + int k)\<rparr>"

definition config0 :: LevelConfig where
  "config0 = \<lparr>maxNumber = 0, operations = [Addition, Subtraction]\<rparr>"

declare getDigits_loop.simps [simp del] padDigits_loop.simps [simp del]
  addition_pass.simps [simp del] subtraction_pass.simps [simp del] show_nat.simps [simp del]

section \<open>Digit arrays and the two passes: lemmas\<close>

lemma from_digits_snoc: "from_digits (ds @ [d]) = from_digits ds + d * 10 ^ length ds"
  by (induction ds) (auto simp: algebra_simps)

lemma from_digits_zeros: "from_digits (replicate k 0) = 0"
  by (induction k) auto

lemma from_digits_append_zeros: "from_digits (ds @ replicate k 0) = from_digits ds"
  by (induction ds) (auto simp: from_digits_zeros)

lemma js_rem_nonneg: "0 \<le> a \<Longrightarrow> js_rem a 10 = a mod 10"
  by (cases "a = 0") (auto simp: js_rem_def)

lemma from_digits_bounds: "dec_digits ds \<Longrightarrow> 0 \<le> from_digits ds \<and> from_digits ds < 10 ^ length ds"
  by (induction ds) (auto simp: dec_digits_def)

lemma getDigits_loop_props:
  "0 \<le> n \<Longrightarrow> dec_digits ds \<Longrightarrow>
   dec_digits (getDigits_loop n ds) \<and>
   from_digits (getDigits_loop n ds) = from_digits ds + n * 10 ^ length ds \<and>
   length ds \<le> length (getDigits_loop n ds)"
proof (induction n ds rule: getDigits_loop.induct)
  case (1 n ds)
  show ?case
  proof (cases "n > 0")
    case True
    have nn: "0 \<le> n div 10" using True by simp
    have dd: "dec_digits (ds @ [js_rem n 10])"
      using "1.prems" True by (simp add: dec_digits_def js_rem_nonneg)
    have key: "(n mod 10) * 10 ^ length ds + (n div 10) * 10 ^ Suc (length ds) = n * 10 ^ length ds"
    proof -
      define q r where "q = n div 10" and "r = n mod 10"
      have n_eq: "n = 10 * q + r" by (simp add: q_def r_def)
      have "r * 10 ^ length ds + q * 10 ^ Suc (length ds) = (10 * q + r) * 10 ^ length ds"
        by (simp add: algebra_simps)
      also have "\<dots> = n * 10 ^ length ds" using n_eq by simp
      finally show ?thesis unfolding q_def r_def .
    qed
    have unf: "getDigits_loop n ds = getDigits_loop (n div 10) (ds @ [js_rem n 10])"
      using True by (subst getDigits_loop.simps) simp
    from "1.IH"[OF True nn dd] key True show ?thesis
      unfolding unf by (simp add: from_digits_snoc js_rem_nonneg)
  next
    case False
    then have "getDigits_loop n ds = ds" by (subst getDigits_loop.simps) simp
    with "1.prems" False show ?thesis by simp
  qed
qed

lemma getDigits_props:
  assumes "0 \<le> n"
  shows "dec_digits (getDigits n)" and "from_digits (getDigits n) = n" and "0 < length (getDigits n)"
proof -
  have e: "dec_digits []" by (simp add: dec_digits_def)
  show "dec_digits (getDigits n)"
    using getDigits_loop_props[OF assms e] assms by (auto simp: getDigits_def dec_digits_def)
  show "from_digits (getDigits n) = n"
    using getDigits_loop_props[OF assms e] assms by (auto simp: getDigits_def)
  show "0 < length (getDigits n)"
  proof (cases "n = 0")
    case True then show ?thesis by (simp add: getDigits_def)
  next
    case False
    have "getDigits_loop n [] \<noteq> []"
    proof
      assume "getDigits_loop n [] = []"
      then have "from_digits (getDigits_loop n []) = 0" by simp
      then show False using getDigits_loop_props[OF assms e] False by simp
    qed
    then show ?thesis using assms False by (simp add: getDigits_def)
  qed
qed

lemma getDigits_bound: "0 \<le> n \<Longrightarrow> n < 10 ^ length (getDigits n)"
  using from_digits_bounds[of "getDigits n"] getDigits_props[of n] by simp

lemma padDigits_loop_eq:
  "padDigits_loop padded len = padded @ replicate (len - length padded) None"
proof (induction padded len rule: padDigits_loop.induct)
  case (1 padded len)
  show ?case
  proof (cases "length padded < len")
    case True
    then have "len - length padded = Suc (len - Suc (length padded))" by simp
    moreover have "padDigits_loop padded len = padDigits_loop (padded @ [None]) len"
      using True by (subst padDigits_loop.simps) simp
    ultimately show ?thesis using "1.IH"[OF True] by (simp add: replicate_app_Cons_same)
  next
    case False
    then show ?thesis by (subst padDigits_loop.simps) simp
  qed
qed

lemma padDigits_eq: "padDigits ds len = map Some ds @ replicate (len - length ds) None"
  by (simp add: padDigits_def padDigits_loop_eq)

lemma at_or_zero_padDigits:
  "at_or_zero (padDigits ds len) j = (if j < length ds then ds ! j else 0)"
  by (auto simp: at_or_zero_def padDigits_eq nth_append)

lemma digit_vals_padDigits:
  "length ds \<le> mx \<Longrightarrow> digit_vals (padDigits ds mx) mx = ds @ replicate (mx - length ds) 0"
  by (rule nth_equalityI) (auto simp: digit_vals_def at_or_zero_padDigits nth_append)

lemma from_digits_padded:
  "length ds \<le> mx \<Longrightarrow> from_digits (digit_vals (padDigits ds mx) mx) = from_digits ds"
  by (simp add: digit_vals_padDigits from_digits_append_zeros)

lemma digits_ok_padDigits: "dec_digits ds \<Longrightarrow> digits_ok (padDigits ds mx)"
  by (auto simp: digits_ok_def at_or_zero_padDigits dec_digits_def)

lemma digit_vals_Suc: "digit_vals arr (Suc n) = digit_vals arr n @ [at_or_zero arr n]"
  by (simp add: digit_vals_def)

lemma length_digit_vals: "length (digit_vals arr n) = n"
  by (simp add: digit_vals_def)

subsection \<open>Addition pass\<close>

lemma carries_chain_snoc:
  "carries_chain c0 (cols @ [c]) \<longleftrightarrow> carries_chain c0 cols \<and> carryIn c = final_carry c0 cols"
  by (induction cols arbitrary: c0) auto

lemma final_carry_snoc: "final_carry c0 (cols @ [c]) = carryOut c"
  by (induction cols arbitrary: c0) auto

lemma shift_digit:
  fixes s :: int
  shows "(s mod 10) * 10 ^ i + (s div 10) * 10 ^ Suc i = s * 10 ^ i"
proof -
  define q r where "q = s div 10" and "r = s mod 10"
  have s_eq: "s = 10 * q + r" by (simp add: q_def r_def)
  have "r * 10 ^ i + q * 10 ^ Suc i = (10 * q + r) * 10 ^ i" by (simp add: algebra_simps)
  also have "\<dots> = s * 10 ^ i" using s_eq by simp
  finally show ?thesis unfolding q_def r_def .
qed

lemma add_inv_step:
  assumes inv: "add_inv p1 p2 i cin cols" and ok1: "digits_ok p1" and ok2: "digits_ok p2"
  defines "sm \<equiv> at_or_zero p1 i + at_or_zero p2 i + cin"
  shows "add_inv p1 p2 (Suc i) (sm div 10)
           (cols @ [\<lparr>ColumnCalc.placeIndex = i, placeName = place_name i, op1Digit = at_or_zero p1 i,
                      op2Digit = at_or_zero p2 i, carryIn = cin, sum_col = sm,
                      resultDigit = js_rem sm 10, carryOut = sm div 10\<rparr>])"
proof -
  have d1: "0 \<le> at_or_zero p1 i" "at_or_zero p1 i \<le> 9" using ok1 by (auto simp: digits_ok_def)
  have d2: "0 \<le> at_or_zero p2 i" "at_or_zero p2 i \<le> 9" using ok2 by (auto simp: digits_ok_def)
  have c: "0 \<le> cin" "cin \<le> 1" using inv by (auto simp: add_inv_def)
  have sm0: "0 \<le> sm" "sm \<le> 19" using d1 d2 c by (auto simp: sm_def)
  have rd: "js_rem sm 10 = sm mod 10" using sm0 by (simp add: js_rem_nonneg)
  have cout: "0 \<le> sm div 10" "sm div 10 \<le> 1" using sm0 by auto
  have len: "length cols = i" using inv by (simp add: add_inv_def)
  have fd: "from_digits (map ColumnCalc.resultDigit cols) + cin * 10 ^ i
       = from_digits (digit_vals p1 i) + from_digits (digit_vals p2 i)"
    using inv by (simp add: add_inv_def)
  have "from_digits (map ColumnCalc.resultDigit cols) + (sm mod 10) * 10 ^ i + (sm div 10) * 10 ^ Suc i
      = from_digits (map ColumnCalc.resultDigit cols) + sm * 10 ^ i"
    using shift_digit[of sm i] by simp
  also have "\<dots> = (from_digits (map ColumnCalc.resultDigit cols) + cin * 10 ^ i)
                    + at_or_zero p1 i * 10 ^ i + at_or_zero p2 i * 10 ^ i"
    by (simp add: sm_def algebra_simps)
  finally have fd': "from_digits (map ColumnCalc.resultDigit cols) + (sm mod 10) * 10 ^ i + (sm div 10) * 10 ^ Suc i
      = from_digits (digit_vals p1 i) + at_or_zero p1 i * 10 ^ i
        + (from_digits (digit_vals p2 i) + at_or_zero p2 i * 10 ^ i)"
    using fd by simp
  have mod_eq: "sm = 10 * (sm div 10) + sm mod 10" by simp
  show ?thesis
    unfolding add_inv_def
    using inv fd' cout rd len mod_eq
    by (simp add: add_inv_def add_col_ok_def carries_chain_snoc final_carry_snoc
        digit_vals_Suc from_digits_snoc length_digit_vals sm_def)
qed

lemma addition_pass_inv:
  "add_inv p1 p2 i cin cols \<Longrightarrow> digits_ok p1 \<Longrightarrow> digits_ok p2 \<Longrightarrow> i \<le> mx \<Longrightarrow>
   add_inv p1 p2 mx (final_carry 0 (addition_pass p1 p2 mx i cin cols)) (addition_pass p1 p2 mx i cin cols)"
proof (induction p1 p2 mx i cin cols rule: addition_pass.induct)
  case (1 p1 p2 mx i cin cols)
  show ?case
  proof (cases "i < mx")
    case True
    define col where "col = \<lparr>ColumnCalc.placeIndex = i, placeName = place_name i, op1Digit = at_or_zero p1 i,
                      op2Digit = at_or_zero p2 i, carryIn = cin, sum_col = at_or_zero p1 i + at_or_zero p2 i + cin,
                      resultDigit = js_rem (at_or_zero p1 i + at_or_zero p2 i + cin) 10,
                      carryOut = (at_or_zero p1 i + at_or_zero p2 i + cin) div 10\<rparr>"
    have step: "add_inv p1 p2 (Suc i) ((at_or_zero p1 i + at_or_zero p2 i + cin) div 10) (cols @ [col])"
      using add_inv_step[OF "1.prems"(1) "1.prems"(2) "1.prems"(3)] by (simp add: col_def)
    have unf: "addition_pass p1 p2 mx i cin cols
        = addition_pass p1 p2 mx (Suc i) ((at_or_zero p1 i + at_or_zero p2 i + cin) div 10) (cols @ [col])"
      using True by (subst addition_pass.simps) (simp add: Let_def col_def)
    show ?thesis
      unfolding unf
      using "1.IH"[OF True refl refl refl refl refl, folded col_def, OF step "1.prems"(2) "1.prems"(3)] True
      by simp
  next
    case False
    then have "i = mx" using "1.prems" by simp
    moreover have "addition_pass p1 p2 mx i cin cols = cols"
      using False by (subst addition_pass.simps) simp
    ultimately show ?thesis using "1.prems"(1) by (simp add: add_inv_def)
  qed
qed

lemma add_inv_init: "add_inv p1 p2 0 0 []"
  by (simp add: add_inv_def digit_vals_def)

subsection \<open>Subtraction pass\<close>

lemma borrows_chain_snoc:
  "borrows_chain b0 (cols @ [c]) \<longleftrightarrow> borrows_chain b0 cols \<and> borrowIn c = final_borrow b0 cols"
  by (induction cols arbitrary: b0) auto

lemma final_borrow_snoc: "final_borrow b0 (cols @ [c]) = borrowOut c"
  by (induction cols arbitrary: b0) auto

lemma sub_inv_step:
  assumes inv: "sub_inv p1 p2 i bin cols" and ok1: "digits_ok p1" and ok2: "digits_ok p2"
  defines "d1 \<equiv> at_or_zero p1 i - bin" and "d2 \<equiv> at_or_zero p2 i"
  defines "col \<equiv> \<lparr>placeIndex = i, placeName = place_name i, op1Digit = at_or_zero p1 i,
                      op2Digit = d2, borrowIn = bin, needsBorrow = (d1 < d2),
                      borrowedValue = (if d1 < d2 then d1 + 10 else d1),
                      resultDigit = (if d1 < d2 then d1 + 10 else d1) - d2\<rparr>"
  shows "sub_inv p1 p2 (Suc i) (if d1 < d2 then 1 else 0) (cols @ [col])"
proof -
  have a1: "0 \<le> at_or_zero p1 i" "at_or_zero p1 i \<le> 9" using ok1 by (auto simp: digits_ok_def)
  have a2: "0 \<le> d2" "d2 \<le> 9" using ok2 by (auto simp: digits_ok_def d2_def)
  have b: "0 \<le> bin" "bin \<le> 1" using inv by (auto simp: sub_inv_def)
  have len: "length cols = i" using inv by (simp add: sub_inv_def)
  have colok: "sub_col_ok col"
    using a1 a2 b by (auto simp: sub_col_ok_def col_def d1_def)
  have fd: "from_digits (map resultDigit cols) - bin * 10 ^ i
       = from_digits (digit_vals p1 i) - from_digits (digit_vals p2 i)"
    using inv by (simp add: sub_inv_def)
  have rd: "resultDigit col * 10 ^ i - (if d1 < d2 then 1 else 0) * 10 ^ Suc i = (d1 - d2) * 10 ^ i"
    by (simp add: col_def algebra_simps)
  have "from_digits (map resultDigit (cols @ [col])) - (if d1 < d2 then 1 else 0) * 10 ^ Suc i
      = from_digits (map resultDigit cols) + (resultDigit col * 10 ^ i - (if d1 < d2 then 1 else 0) * 10 ^ Suc i)"
    using len by (simp add: from_digits_snoc)
  also have "\<dots> = (from_digits (map resultDigit cols) - bin * 10 ^ i)
                    + at_or_zero p1 i * 10 ^ i - d2 * 10 ^ i"
    unfolding rd by (simp add: d1_def algebra_simps)
  also have "\<dots> = from_digits (digit_vals p1 (Suc i)) - from_digits (digit_vals p2 (Suc i))"
    unfolding fd by (simp add: digit_vals_Suc from_digits_snoc length_digit_vals d2_def)
  finally have fd': "from_digits (map resultDigit (cols @ [col])) - (if d1 < d2 then 1 else 0) * 10 ^ Suc i
      = from_digits (digit_vals p1 (Suc i)) - from_digits (digit_vals p2 (Suc i))" .
  have fields: "op1Digit col = at_or_zero p1 i" "op2Digit col = at_or_zero p2 i" "placeIndex col = i"
    "borrowIn col = bin" "borrowOut col = (if d1 < d2 then 1 else 0)"
    by (simp_all add: col_def d2_def borrowOut_def)
  show ?thesis
    unfolding sub_inv_def
    using inv colok fd' len fields
    by (simp add: sub_inv_def borrows_chain_snoc final_borrow_snoc digit_vals_Suc)
qed

lemma subtraction_pass_inv:
  "sub_inv p1 p2 i bin cols \<Longrightarrow> digits_ok p1 \<Longrightarrow> digits_ok p2 \<Longrightarrow> i \<le> mx \<Longrightarrow>
   sub_inv p1 p2 mx (final_borrow 0 (subtraction_pass p1 p2 mx i bin cols))
     (subtraction_pass p1 p2 mx i bin cols)"
proof (induction p1 p2 mx i bin cols rule: subtraction_pass.induct)
  case (1 p1 p2 mx i bin cols)
  show ?case
  proof (cases "i < mx")
    case True
    define d1 where "d1 = at_or_zero p1 i - bin"
    define d2 where "d2 = at_or_zero p2 i"
    define col where "col = \<lparr>placeIndex = i, placeName = place_name i, op1Digit = at_or_zero p1 i,
                      op2Digit = d2, borrowIn = bin, needsBorrow = (d1 < d2),
                      borrowedValue = (if d1 < d2 then d1 + 10 else d1),
                      resultDigit = (if d1 < d2 then d1 + 10 else d1) - d2\<rparr>"
    have step: "sub_inv p1 p2 (Suc i) (if d1 < d2 then 1 else 0) (cols @ [col])"
      unfolding col_def d1_def d2_def
      by (rule sub_inv_step[OF "1.prems"(1) "1.prems"(2) "1.prems"(3)])
    have unf: "subtraction_pass p1 p2 mx i bin cols
        = subtraction_pass p1 p2 mx (Suc i) (if d1 < d2 then 1 else 0) (cols @ [col])"
      using True by (subst subtraction_pass.simps) (simp add: Let_def col_def d1_def d2_def)
    show ?thesis
      unfolding unf
      using "1.IH"[OF True refl refl refl refl refl, folded d1_def d2_def, folded col_def,
          OF step "1.prems"(2) "1.prems"(3)] True
      by simp
  next
    case False
    then have "i = mx" using "1.prems" by simp
    moreover have "subtraction_pass p1 p2 mx i bin cols = cols"
      using False by (subst subtraction_pass.simps) simp
    ultimately show ?thesis using "1.prems"(1) by (simp add: sub_inv_def)
  qed
qed

lemma sub_inv_init: "sub_inv p1 p2 0 0 []"
  by (simp add: sub_inv_def digit_vals_def)

lemma addition_columns_map: "addition_columns (map AddColumn cs) = cs"
  by (induction cs) auto

lemma subtraction_columns_map: "subtraction_columns (map SubColumn cs) = cs"
  by (induction cs) auto

lemma final_carry_last: "cols \<noteq> [] \<Longrightarrow> final_carry c0 cols = carryOut (last cols)"
  by (induction cols arbitrary: c0) auto

lemma final_borrow_last: "cols \<noteq> [] \<Longrightarrow> final_borrow b0 cols = borrowOut (last cols)"
  by (induction cols arbitrary: b0) auto

lemma sub_col_ok_range: "sub_col_ok c \<Longrightarrow> 0 \<le> resultDigit c \<and> resultDigit c \<le> 9"
  unfolding sub_col_ok_def by blast

section \<open>The addition pass\<close>

text \<open>
  Claim C1. For a problem with operation addition, non-negative operands and
  \<open>answer = operand1 + operand2\<close>, the addition pass yields one column per place
  \<open>0..maxDigits-1\<close>; every column satisfies
  \<open>op1Digit + op2Digit + carryIn = 10 * carryOut + resultDigit\<close> with the result digit
  between 0 and 9; the carries chain from column to column, starting at 0; the carry out
  of the last column is 0; and the result digits, read ones first, are the number
  \<open>operand1 + operand2\<close> (the operand digits read back as the operands).
\<close>

theorem addition_pass_correct:
  assumes "operation p = Addition" and "0 \<le> operand1 p" and "0 \<le> operand2 p"
    and "answer p = operand1 p + operand2 p"
  shows "columns (decompose p) = map AddColumn (addition_columns (columns (decompose p))) \<and>
         length (columns (decompose p)) = maxDigits (decompose p) \<and>
         0 < maxDigits (decompose p) \<and>
         (\<forall>c \<in> set (addition_columns (columns (decompose p))). add_col_ok c) \<and>
         carries_chain 0 (addition_columns (columns (decompose p))) \<and>
         carryOut (last (addition_columns (columns (decompose p)))) = 0 \<and>
         map ColumnCalc.placeIndex (addition_columns (columns (decompose p)))
           = [0..<maxDigits (decompose p)] \<and>
         from_digits (map ColumnCalc.op1Digit (addition_columns (columns (decompose p)))) = operand1 p \<and>
         from_digits (map ColumnCalc.op2Digit (addition_columns (columns (decompose p)))) = operand2 p \<and>
         from_digits (map ColumnCalc.resultDigit (addition_columns (columns (decompose p))))
           = operand1 p + operand2 p"
proof -
  define op1 where "op1 = getDigits (operand1 p)"
  define op2 where "op2 = getDigits (operand2 p)"
  define res where "res = getDigits (answer p)"
  define mx where "mx = max (max (length op1) (length op2)) (length res)"
  define p1 where "p1 = padDigits op1 mx"
  define p2 where "p2 = padDigits op2 mx"
  define cols where "cols = addition_pass p1 p2 mx 0 0 []"
  have dec: "columns (decompose p) = map AddColumn cols" "maxDigits (decompose p) = mx"
    using assms(1) by (simp_all add: decompose_def Let_def op1_def op2_def res_def mx_def p1_def p2_def cols_def)
  have ac: "addition_columns (columns (decompose p)) = cols"
    by (simp add: dec addition_columns_map)
  have ans0: "0 \<le> answer p" using assms by simp
  have l1: "length op1 \<le> mx" and l2: "length op2 \<le> mx" and l3: "length res \<le> mx"
    by (simp_all add: mx_def)
  have mxpos: "0 < mx" using getDigits_props(3)[OF assms(2)] l1 unfolding op1_def by linarith
  have ok1: "digits_ok p1" unfolding p1_def op1_def
    by (rule digits_ok_padDigits) (rule getDigits_props(1)[OF assms(2)])
  have ok2: "digits_ok p2" unfolding p2_def op2_def
    by (rule digits_ok_padDigits) (rule getDigits_props(1)[OF assms(3)])
  have inv: "add_inv p1 p2 mx (final_carry 0 cols) cols"
    unfolding cols_def by (rule addition_pass_inv[OF add_inv_init ok1 ok2]) simp
  have v1: "from_digits (digit_vals p1 mx) = operand1 p"
    unfolding p1_def using from_digits_padded[OF l1] getDigits_props(2)[OF assms(2)] by (simp add: op1_def)
  have v2: "from_digits (digit_vals p2 mx) = operand2 p"
    unfolding p2_def using from_digits_padded[OF l2] getDigits_props(2)[OF assms(3)] by (simp add: op2_def)
  have len: "length cols = mx" using inv by (simp add: add_inv_def)
  have ne: "cols \<noteq> []" using len mxpos by auto
  have okc: "\<forall>c \<in> set cols. add_col_ok c" using inv by (simp add: add_inv_def)
  have "dec_digits (map ColumnCalc.resultDigit cols)"
    using okc by (auto simp: dec_digits_def add_col_ok_def)
  then have fd0: "0 \<le> from_digits (map ColumnCalc.resultDigit cols)"
    using from_digits_bounds by blast
  have sum_eq: "from_digits (map ColumnCalc.resultDigit cols) + final_carry 0 cols * 10 ^ mx
      = operand1 p + operand2 p"
    using inv v1 v2 by (simp add: add_inv_def)
  have "answer p < 10 ^ length res" unfolding res_def by (rule getDigits_bound[OF ans0])
  also have "\<dots> \<le> (10::int) ^ mx" using l3 by (simp add: power_increasing)
  finally have small: "operand1 p + operand2 p < 10 ^ mx" using assms(4) by simp
  have cb: "0 \<le> final_carry 0 cols" "final_carry 0 cols \<le> 1" using inv by (simp_all add: add_inv_def)
  have fc0: "final_carry 0 cols = 0"
  proof (rule ccontr)
    assume "final_carry 0 cols \<noteq> 0"
    then have "final_carry 0 cols = 1" using cb by simp
    then show False using sum_eq fd0 small by simp
  qed
  have last0: "carryOut (last cols) = 0" using fc0 final_carry_last[OF ne, of 0] by simp
  show ?thesis
    unfolding ac dec
    using inv len mxpos last0 fc0 sum_eq v1 v2 by (simp add: add_inv_def addition_columns_map)
qed

theorem addition_pass_correct_witness:
  "operation p75 = Addition \<and> 0 \<le> operand1 p75 \<and> 0 \<le> operand2 p75 \<and>
   answer p75 = operand1 p75 + operand2 p75 \<and>
   length (columns (decompose p75)) = 2 \<and>
   list_all add_col_ok (addition_columns (columns (decompose p75))) \<and>
   carries_chain 0 (addition_columns (columns (decompose p75))) \<and>
   carryOut (last (addition_columns (columns (decompose p75)))) = 0 \<and>
   from_digits (map ColumnCalc.resultDigit (addition_columns (columns (decompose p75)))) = 12"
proof -
  have h: "operation p75 = Addition" "0 \<le> operand1 p75" "0 \<le> operand2 p75"
    "answer p75 = operand1 p75 + operand2 p75"
    by (simp_all add: p75_def)
  have s: "operand1 p75 + operand2 p75 = 12" by (simp add: p75_def)
  have two: "length (columns (decompose p75)) = 2"
    by (simp add: decompose_def p75_def getDigits_def getDigits_loop.simps padDigits_def
        padDigits_loop.simps addition_pass.simps js_rem_def at_or_zero_def Let_def)
  show ?thesis using addition_pass_correct[OF h] h two unfolding s list_all_iff by blast
qed

section \<open>The subtraction pass\<close>

text \<open>
  Claim C2. For a problem with operation subtraction, \<open>operand1 \<ge> operand2 \<ge> 0\<close> and
  \<open>answer = operand1 - operand2\<close>, every column of the subtraction pass satisfies
  \<open>needsBorrow \<longleftrightarrow> op1Digit - borrowIn < op2Digit\<close> and
  \<open>resultDigit = (if needsBorrow then op1Digit - borrowIn + 10 else op1Digit - borrowIn) - op2Digit\<close>
  with the result digit between 0 and 9; the borrows chain from column to column,
  starting at 0; the borrow out of the last column is 0; and the result digits, read ones
  first, are the number \<open>operand1 - operand2\<close>.
\<close>

theorem subtraction_pass_correct:
  assumes "operation p = Subtraction" and "0 \<le> operand2 p" and "operand2 p \<le> operand1 p"
    and "answer p = operand1 p - operand2 p"
  shows "columns (decompose p) = map SubColumn (subtraction_columns (columns (decompose p))) \<and>
         length (columns (decompose p)) = maxDigits (decompose p) \<and>
         0 < maxDigits (decompose p) \<and>
         (\<forall>c \<in> set (subtraction_columns (columns (decompose p))). sub_col_ok c) \<and>
         borrows_chain 0 (subtraction_columns (columns (decompose p))) \<and>
         borrowOut (last (subtraction_columns (columns (decompose p)))) = 0 \<and>
         map placeIndex (subtraction_columns (columns (decompose p)))
           = [0..<maxDigits (decompose p)] \<and>
         from_digits (map op1Digit (subtraction_columns (columns (decompose p)))) = operand1 p \<and>
         from_digits (map op2Digit (subtraction_columns (columns (decompose p)))) = operand2 p \<and>
         from_digits (map resultDigit (subtraction_columns (columns (decompose p))))
           = operand1 p - operand2 p"
proof -
  define op1 where "op1 = getDigits (operand1 p)"
  define op2 where "op2 = getDigits (operand2 p)"
  define res where "res = getDigits (answer p)"
  define mx where "mx = max (max (length op1) (length op2)) (length res)"
  define p1 where "p1 = padDigits op1 mx"
  define p2 where "p2 = padDigits op2 mx"
  define cols where "cols = subtraction_pass p1 p2 mx 0 0 []"
  have dec: "columns (decompose p) = map SubColumn cols" "maxDigits (decompose p) = mx"
    using assms(1) by (simp_all add: decompose_def Let_def op1_def op2_def res_def mx_def p1_def p2_def cols_def)
  have a1: "0 \<le> operand1 p" using assms by simp
  have l1: "length op1 \<le> mx" and l2: "length op2 \<le> mx"
    by (simp_all add: mx_def)
  have mxpos: "0 < mx" using getDigits_props(3)[OF a1] l1 unfolding op1_def by linarith
  have ok1: "digits_ok p1" unfolding p1_def op1_def
    by (rule digits_ok_padDigits) (rule getDigits_props(1)[OF a1])
  have ok2: "digits_ok p2" unfolding p2_def op2_def
    by (rule digits_ok_padDigits) (rule getDigits_props(1)[OF assms(2)])
  have inv: "sub_inv p1 p2 mx (final_borrow 0 cols) cols"
    unfolding cols_def by (rule subtraction_pass_inv[OF sub_inv_init ok1 ok2]) simp
  have v1: "from_digits (digit_vals p1 mx) = operand1 p"
    unfolding p1_def using from_digits_padded[OF l1] getDigits_props(2)[OF a1] by (simp add: op1_def)
  have v2: "from_digits (digit_vals p2 mx) = operand2 p"
    unfolding p2_def using from_digits_padded[OF l2] getDigits_props(2)[OF assms(2)] by (simp add: op2_def)
  have len: "length cols = mx" using inv unfolding sub_inv_def by blast
  have ne: "cols \<noteq> []" using len mxpos by auto
  have okc: "\<forall>c \<in> set cols. sub_col_ok c" using inv unfolding sub_inv_def by blast
  have "dec_digits (map resultDigit cols)"
    using okc sub_col_ok_range by (auto simp: dec_digits_def)
  then have fdlt: "from_digits (map resultDigit cols) < 10 ^ mx"
    using from_digits_bounds[of "map resultDigit cols"] len by simp
  have diff_eq: "from_digits (map resultDigit cols) - final_borrow 0 cols * 10 ^ mx
      = operand1 p - operand2 p"
    using inv unfolding sub_inv_def v1 v2 by blast
  have bb: "0 \<le> final_borrow 0 cols" "final_borrow 0 cols \<le> 1"
    using inv unfolding sub_inv_def by blast+
  have chain: "borrows_chain 0 cols" using inv unfolding sub_inv_def by blast
  have maps: "map op1Digit cols = digit_vals p1 mx" "map op2Digit cols = digit_vals p2 mx"
    "map placeIndex cols = [0..<mx]"
    using inv unfolding sub_inv_def by blast+
  have fb0: "final_borrow 0 cols = 0"
  proof (rule ccontr)
    assume "final_borrow 0 cols \<noteq> 0"
    then have "final_borrow 0 cols = 1" using bb by simp
    then show False using diff_eq fdlt assms(3) by simp
  qed
  have last0: "borrowOut (last cols) = 0" using fb0 final_borrow_last[OF ne, of 0] by simp
  show ?thesis
    unfolding dec subtraction_columns_map maps
    using len mxpos last0 fb0 diff_eq v1 v2 okc chain by simp
qed

theorem subtraction_pass_correct_witness:
  "operation p12_5 = Subtraction \<and> 0 \<le> operand2 p12_5 \<and> operand2 p12_5 \<le> operand1 p12_5 \<and>
   answer p12_5 = operand1 p12_5 - operand2 p12_5 \<and>
   length (columns (decompose p12_5)) = 2 \<and>
   list_all sub_col_ok (subtraction_columns (columns (decompose p12_5))) \<and>
   borrows_chain 0 (subtraction_columns (columns (decompose p12_5))) \<and>
   borrowOut (last (subtraction_columns (columns (decompose p12_5)))) = 0 \<and>
   from_digits (map resultDigit (subtraction_columns (columns (decompose p12_5)))) = 7"
proof -
  have h: "operation p12_5 = Subtraction" "0 \<le> operand2 p12_5" "operand2 p12_5 \<le> operand1 p12_5"
    "answer p12_5 = operand1 p12_5 - operand2 p12_5"
    by (simp_all add: p12_5_def)
  have s: "operand1 p12_5 - operand2 p12_5 = 7" by (simp add: p12_5_def)
  have two: "length (columns (decompose p12_5)) = 2"
    by (simp add: decompose_def p12_5_def getDigits_def getDigits_loop.simps padDigits_def
        padDigits_loop.simps subtraction_pass.simps js_rem_def at_or_zero_def Let_def)
  show ?thesis using subtraction_pass_correct[OF h] h two unfolding s list_all_iff by blast
qed

section \<open>Runs of the sequencer: what a program emits\<close>

lemma trace_emit [simp]: "trace (emit evs r) = trace r @ evs"
  by (simp add: emit_def)

lemma cancelled_emit [simp]: "cancelled (emit evs r) = cancelled r"
  and halt_emit [simp]: "halt (emit evs r) = halt r"
  and awaits_emit [simp]: "awaits (emit evs r) = awaits r"
  and speaks_emit [simp]: "speaks (emit evs r) = speaks r"
  by (simp_all add: emit_def)

lemma filter_cleanup_during:
  "dynamic_free P \<Longrightarrow> filter P (trace (cleanup_during env r)) = filter P (trace r)"
  by (simp add: cleanup_during_def dynamic_free_def)

lemma filter_await_for:
  "dynamic_free P \<Longrightarrow> filter P (trace (await_for env ms r)) = filter P (trace r)"
  by (simp add: await_for_def Let_def filter_cleanup_during) (simp add: dynamic_free_def)

lemma filter_await_forever:
  "dynamic_free P \<Longrightarrow> filter P (trace (await_forever env r)) = filter P (trace r)"
  by (simp add: await_forever_def filter_cleanup_during)

lemma filter_speakAndWait:
  "dynamic_free P \<Longrightarrow> filter P (trace (speakAndWait env sp text mw r)) = filter P (trace r)"
  by (auto simp: speakAndWait_def Let_def filter_await_for filter_await_forever
      split: Promise.splits) (simp_all add: dynamic_free_def)

lemma exec_filter:
  assumes "dynamic_free P"
  shows "prefix (filter P (trace (snd (exec env sp prog r)))) (filter P (trace r) @ filter P (script prog))
       \<and> (fst (exec env sp prog r) = Finished \<longrightarrow>
            filter P (trace (snd (exec env sp prog r))) = filter P (trace r) @ filter P (script prog))"
  using assms
proof (induction env sp prog r rule: exec.induct)
  case (1 env speed r)
  then show ?case by (simp add: script_def)
next
  case (2 env speed rest r)
  then show ?case by (simp add: script_def dynamic_free_def)
next
  case (3 env speed ms rest r)
  then show ?case by (simp add: script_def filter_await_for)
next
  case (4 env speed tx minWait rest r)
  then show ?case by (simp add: script_def filter_speakAndWait Let_def)
next
  case (5 env speed rest r)
  then show ?case by (simp add: script_def)
next
  case (6 env speed c rest r)
  then show ?case by (auto simp: script_def)
next
  case (7 env speed p rest r)
  then show ?case by (auto simp: script_def)
next
  case (8 env speed d rest r)
  then show ?case by (auto simp: script_def)
next
  case (9 env speed b rest r)
  then show ?case by (auto simp: script_def)
next
  case (10 env speed rest r)
  then show ?case by (auto simp: script_def)
qed

lemma script_append: "script (a @ b) = script a @ script b"
  by (simp add: script_def)

lemma script_write_wait: "script [write_wait b c] = []"
  by (simp add: script_def write_wait_def)

lemma script_column_steps: "script (column_steps opn b i c) = column_script opn i c"
  using script_write_wait[of b c]
  by (simp add: column_steps_def column_script_def script_def)

lemma script_loop_steps: "script (loop_steps opn b cols n) = loop_script opn cols n"
proof (induction n)
  case 0
  then show ?case by (simp add: loop_steps_def loop_script_def script_def)
next
  case (Suc n)
  have "loop_steps opn b cols (Suc n) = loop_steps opn b cols n @ column_steps opn b n (cols ! n)"
    by (simp add: loop_steps_def)
  moreover have "loop_script opn cols (Suc n) = loop_script opn cols n @ column_script opn n (cols ! n)"
    by (simp add: loop_script_def)
  ultimately show ?case using Suc by (simp add: script_append script_column_steps)
qed

lemma script_runAnimation_steps: "script (runAnimation_steps props env) = run_script props"
proof -
  have a: "script [StopSpeech, Delay x, ReturnIfCancelled] = [EvStop]" for x
    by (simp add: script_def)
  have b: "script [SetIsDone True, SpeakAndWait t x, ReturnIfCancelled, CallOnComplete]
        = [EvSetIsDone True, EvComplete]" for t x
    by (simp add: script_def)
  show ?thesis
    unfolding runAnimation_steps_def Let_def script_append script_loop_steps a b run_script_def ..
qed

lemma loop_script_Suc:
  "loop_script opn cols (Suc n) = loop_script opn cols n @ column_script opn n (cols ! n)"
  by (simp add: loop_script_def)

lemma loop_script_0: "loop_script opn cols 0 = []"
  by (simp add: loop_script_def)

subsection \<open>States along a script\<close>

lemma states_append:
  "states s (a @ b) = states s a @ tl (states (foldl apply_event s a) b)"
  by (induction a arbitrary: s) (auto, case_tac b, auto)

lemma states_prefix: "prefix a b \<Longrightarrow> prefix (states s a) (states s b)"
  by (auto simp: prefix_def states_append)

lemma phase_entries_append:
  "phase_entries s (a @ b) = phase_entries s a @ phase_entries (foldl apply_event s a) b"
  by (induction s a rule: phase_entries.induct) auto

lemma phase_entries_prefix: "prefix a b \<Longrightarrow> prefix (phase_entries s a) (phase_entries s b)"
  by (auto simp: prefix_def phase_entries_append)

lemma phase_entries_filter: "phase_entries s (filter is_setter tr) = phase_entries s tr"
  by (induction s tr rule: phase_entries.induct) auto

lemma states_hd: "states s tr = s # tl (states s tr)"
  by (cases tr) auto

lemma last_states: "last (states s tr) = foldl apply_event s tr"
  by (induction tr arbitrary: s) (auto simp: states_hd[symmetric], metis list.distinct(1) states_hd)

lemma states_head_rel:
  "sorted_wrt R (map f (states s tr)) \<Longrightarrow> y \<in> set (tl (states s tr)) \<Longrightarrow> R (f s) (f y)"
  by (cases tr) auto

lemma states_tl_sorted:
  "sorted_wrt R (map f (states s tr)) \<Longrightarrow> sorted_wrt R (map f (tl (states s tr)))"
  by (cases tr) auto

lemma filter_column_script: "filter is_setter (column_script opn i c) = column_script opn i c"
  by (simp add: column_script_def)

lemma filter_loop_script: "filter is_setter (loop_script opn cols n) = loop_script opn cols n"
  by (induction n) (simp_all add: loop_script_0 loop_script_Suc filter_column_script)

lemma digits_upto_Suc:
  "n < length cols \<Longrightarrow> digits_upto cols (Suc n) = digits_upto cols n @ [column_resultDigit (cols ! n)]"
  by (simp add: digits_upto_def take_Suc_conv_app_nth)

lemma column_states:
  assumes "s = loop_state cols n" and "n < length cols"
  shows "foldl apply_event s (column_script opn n (cols ! n)) = loop_state cols (Suc n)"
    and "loop_ok cols (Suc n) (states s (column_script opn n (cols ! n)))"
  using assms
  by (auto simp: column_script_def loop_state_def loop_ok_def digits_upto_Suc)

lemma loop_ok_mono:
  "loop_ok cols n sts \<Longrightarrow> n < length cols \<Longrightarrow>
   (\<forall>x \<in> set sts. \<not> isDone x \<and> currentColumn x < int (Suc n) \<and>
        prefix (writtenDigits x) (digits_upto cols (Suc n)))"
  by (auto simp: loop_ok_def digits_upto_Suc intro: prefix_order.trans)

lemma loop_history:
  "n \<le> length cols \<Longrightarrow>
   foldl apply_event initial_state (loop_script opn cols n) = loop_state cols n \<and>
   loop_ok cols n (states initial_state (loop_script opn cols n))"
proof (induction n)
  case 0
  then show ?case
    by (simp add: loop_script_0 loop_state_def loop_ok_def initial_state_def digits_upto_def)
next
  case (Suc n)
  let ?a = "loop_script opn cols n" and ?b = "column_script opn n (cols ! n)"
  have n: "n < length cols" using Suc.prems by simp
  have fin: "foldl apply_event initial_state ?a = loop_state cols n"
    and ok: "loop_ok cols n (states initial_state ?a)"
    using Suc by simp_all
  note cs = column_states[OF refl n, of opn]
  have okb: "loop_ok cols (Suc n) (states (loop_state cols n) ?b)" using cs(2) .
  have st: "states initial_state (?a @ ?b) = states initial_state ?a @ tl (states (loop_state cols n) ?b)"
    by (simp add: states_append fin)
  have hdb: "states (loop_state cols n) ?b = loop_state cols n # tl (states (loop_state cols n) ?b)"
    by (rule states_hd)
  have lasta: "last (states initial_state ?a) = loop_state cols n"
    by (simp add: last_states fin)
  have nea: "states initial_state ?a \<noteq> []" by (metis list.distinct(1) states_hd)
  have in_a: "loop_state cols n \<in> set (states initial_state ?a)"
    using lasta nea last_in_set by metis
  have tl_sub: "set (tl (states (loop_state cols n) ?b)) \<subseteq> set (states (loop_state cols n) ?b)"
    by (metis list.set_sel(2) subsetI hdb list.distinct(1))
  have sb: "sorted (map currentColumn (states (loop_state cols n) ?b))"
    and pb: "sorted_wrt prefix (map writtenDigits (states (loop_state cols n) ?b))"
    using okb by (simp_all add: loop_ok_def)
  have cross1: "\<forall>x \<in> set (states initial_state ?a). \<forall>y \<in> set (tl (states (loop_state cols n) ?b)).
        currentColumn x \<le> currentColumn y"
  proof (intro ballI)
    fix x y assume x: "x \<in> set (states initial_state ?a)"
      and y: "y \<in> set (tl (states (loop_state cols n) ?b))"
    have "currentColumn x < int n" using ok x by (simp add: loop_ok_def)
    moreover have "currentColumn (loop_state cols n) \<le> currentColumn y"
      using states_head_rel[OF sb y] .
    ultimately show "currentColumn x \<le> currentColumn y" by (simp add: loop_state_def)
  qed
  have cross2: "\<forall>x \<in> set (states initial_state ?a). \<forall>y \<in> set (tl (states (loop_state cols n) ?b)).
        prefix (writtenDigits x) (writtenDigits y)"
  proof (intro ballI)
    fix x y assume x: "x \<in> set (states initial_state ?a)"
      and y: "y \<in> set (tl (states (loop_state cols n) ?b))"
    have "prefix (writtenDigits x) (digits_upto cols n)" using ok x by (simp add: loop_ok_def)
    moreover have "prefix (writtenDigits (loop_state cols n)) (writtenDigits y)"
      using states_head_rel[OF pb y] .
    ultimately show "prefix (writtenDigits x) (writtenDigits y)"
      by (auto simp: loop_state_def intro: prefix_order.trans)
  qed
  have stl: "sorted (map currentColumn (tl (states (loop_state cols n) ?b)))"
    using states_tl_sorted[OF sb] .
  have ptl: "sorted_wrt prefix (map writtenDigits (tl (states (loop_state cols n) ?b)))"
    using states_tl_sorted[OF pb] .
  have "loop_ok cols (Suc n) (states initial_state (?a @ ?b))"
    unfolding st loop_ok_def
    using ok okb loop_ok_mono[OF ok n] cross1 cross2 stl ptl tl_sub
    by (auto simp: loop_ok_def sorted_append sorted_wrt_append)
  moreover have "foldl apply_event initial_state (?a @ ?b) = loop_state cols (Suc n)"
    using cs(1) by (simp add: fin)
  ultimately show ?case by (simp add: loop_script_Suc)
qed

lemma length_addition_pass:
  "i \<le> mx \<Longrightarrow> length (addition_pass p1 p2 mx i cin cols) = length cols + (mx - i)"
proof (induction p1 p2 mx i cin cols rule: addition_pass.induct)
  case (1 p1 p2 mx i cin cols)
  show ?case
  proof (cases "i < mx")
    case True
    then show ?thesis
      using "1.IH"[OF True refl refl refl refl refl]
      by (subst addition_pass.simps) (simp add: Let_def)
  next
    case False
    then show ?thesis using "1.prems" by (subst addition_pass.simps) simp
  qed
qed

lemma length_subtraction_pass:
  "i \<le> mx \<Longrightarrow> length (subtraction_pass p1 p2 mx i bin cols) = length cols + (mx - i)"
proof (induction p1 p2 mx i bin cols rule: subtraction_pass.induct)
  case (1 p1 p2 mx i bin cols)
  show ?case
  proof (cases "i < mx")
    case True
    then show ?thesis
      using "1.IH"[OF True refl refl refl refl refl]
      by (subst subtraction_pass.simps) (simp add: Let_def)
  next
    case False
    then show ?thesis using "1.prems" by (subst subtraction_pass.simps) simp
  qed
qed

lemma length_columns_decompose: "length (columns (decompose p)) = maxDigits (decompose p)"
  by (simp add: decompose_def Let_def length_addition_pass length_subtraction_pass)

lemma columns_decompose_kind:
  "c \<in> set (columns (decompose p)) \<Longrightarrow>
   (operation p = Addition \<longrightarrow> (\<exists>a. c = AddColumn a)) \<and>
   (operation p = Subtraction \<longrightarrow> (\<exists>b. c = SubColumn b))"
  by (cases "operation p") (auto simp: decompose_def Let_def)

lemma hasCarryOrBorrow_decompose:
  "c \<in> set (columns (decompose p)) \<Longrightarrow> hasCarryOrBorrow (operation p) c = needs_carry_phase c"
  using columns_decompose_kind[of c p] by (cases "operation p") auto

subsection \<open>The states of a whole run\<close>

lemma filter_run_script: "filter is_setter (run_script props) = run_setters props"
  by (simp add: run_script_def run_setters_def filter_loop_script length_columns_decompose)

lemma full_states:
  "states initial_state (run_setters props)
     = states initial_state (loop_script (operation (problem props)) (columns (decompose (problem props)))
         (length (columns (decompose (problem props)))))
       @ [done_state (columns (decompose (problem props)))]"
proof -
  let ?cols = "columns (decompose (problem props))"
  have fin: "foldl apply_event initial_state (loop_script (operation (problem props)) ?cols (length ?cols))
      = loop_state ?cols (length ?cols)"
    using loop_history[of "length ?cols" ?cols] by simp
  show ?thesis
    by (simp add: run_setters_def states_append fin)
      (simp add: loop_state_def done_state_def digits_upto_def)
qed

lemma full_states_ok:
  fixes props
  defines "cols \<equiv> columns (decompose (problem props))"
  defines "sts \<equiv> states initial_state (run_setters props)"
  shows "sorted (map currentColumn sts)"
    and "sorted_wrt prefix (map writtenDigits sts)"
    and "\<forall>x \<in> set sts. isDone x \<longrightarrow> x = done_state cols"
    and "last sts = done_state cols"
proof -
  let ?l = "states initial_state (loop_script (operation (problem props)) cols (length cols))"
  have ok: "loop_ok cols (length cols) ?l"
    using loop_history[of "length cols" cols] by simp
  have sts: "sts = ?l @ [done_state cols]"
    unfolding sts_def cols_def by (rule full_states)
  show "sorted (map currentColumn sts)"
    unfolding sts using ok by (auto simp: loop_ok_def sorted_append done_state_def)
  show "sorted_wrt prefix (map writtenDigits sts)"
    unfolding sts using ok
    by (auto simp: loop_ok_def sorted_wrt_append done_state_def digits_upto_def)
  show "\<forall>x \<in> set sts. isDone x \<longrightarrow> x = done_state cols"
    unfolding sts using ok by (auto simp: loop_ok_def)
  show "last sts = done_state cols" unfolding sts by simp
qed

lemma run_history_prefix:
  "prefix (history initial_state (trace (snd (runAnimation props env))))
          (states initial_state (run_setters props))"
  and run_history_finished:
  "fst (runAnimation props env) = Finished \<Longrightarrow>
     history initial_state (trace (snd (runAnimation props env)))
       = states initial_state (run_setters props)"
proof -
  have df: "dynamic_free is_setter" by (simp add: dynamic_free_def)
  note e = exec_filter[OF df, of env "animationSpeed props" "runAnimation_steps props env" start_run]
  have t0: "trace start_run = []" by (simp add: start_run_def)
  show "prefix (history initial_state (trace (snd (runAnimation props env))))
          (states initial_state (run_setters props))"
    unfolding history_def
    using e by (intro states_prefix)
      (simp add: runAnimation_def t0 script_runAnimation_steps filter_run_script)
  show "fst (runAnimation props env) = Finished \<Longrightarrow>
     history initial_state (trace (snd (runAnimation props env)))
       = states initial_state (run_setters props)"
    unfolding history_def
    using e by (simp add: runAnimation_def t0 script_runAnimation_steps filter_run_script)
qed

lemma sorted_wrt_prefix_closed:
  "prefix xs ys \<Longrightarrow> sorted_wrt R (map f ys) \<Longrightarrow> sorted_wrt R (map f xs)"
  by (auto simp: prefix_def sorted_wrt_append)

lemma run_history_ok:
  fixes props env
  defines "h \<equiv> history initial_state (trace (snd (runAnimation props env)))"
  defines "cols \<equiv> columns (decompose (problem props))"
  shows "sorted (map currentColumn h)"
    and "sorted_wrt prefix (map writtenDigits h)"
    and "\<forall>x \<in> set h. isDone x \<longrightarrow> x = done_state cols"
    and "fst (runAnimation props env) = Finished \<longrightarrow> last h = done_state cols"
proof -
  have p: "prefix h (states initial_state (run_setters props))"
    unfolding h_def by (rule run_history_prefix)
  show "sorted (map currentColumn h)"
    using sorted_wrt_prefix_closed[OF p full_states_ok(1)] .
  show "sorted_wrt prefix (map writtenDigits h)"
    using sorted_wrt_prefix_closed[OF p full_states_ok(2)] .
  show "\<forall>x \<in> set h. isDone x \<longrightarrow> x = done_state cols"
    using p full_states_ok(3)[of props] unfolding cols_def
    by (meson set_mono_prefix subsetD)
  show "fst (runAnimation props env) = Finished \<longrightarrow> last h = done_state cols"
    unfolding h_def cols_def using run_history_finished[of props env] full_states_ok(4)[of props]
    by simp
qed

lemma sorted_wrt_prefix_last:
  "sorted_wrt prefix (map f xs) \<Longrightarrow> x \<in> set xs \<Longrightarrow> prefix (f x) (f (last xs))"
proof (induction xs)
  case Nil
  then show ?case by simp
next
  case (Cons a xs)
  then show ?case by (cases "xs = []") auto
qed

lemma run_history_digits:
  assumes "s \<in> set (history initial_state (trace (snd (runAnimation props env))))"
  shows "prefix (writtenDigits s) (map column_resultDigit (columns (decompose (problem props))))"
proof -
  let ?sts = "states initial_state (run_setters props)"
  have "s \<in> set ?sts"
    using assms run_history_prefix(1)[of props env] by (meson set_mono_prefix subsetD)
  then have "prefix (writtenDigits s) (writtenDigits (last ?sts))"
    using sorted_wrt_prefix_last[OF full_states_ok(2)[of props]] by blast
  then show ?thesis unfolding full_states_ok(4)[of props] by (simp add: done_state_def)
qed

lemma quiet_cleanup_during:
  "\<exists>dyn. trace (cleanup_during env r) = trace r @ dyn \<and> list_all quiet dyn"
  by (simp add: cleanup_during_def)

lemma quiet_await_for:
  "\<exists>dyn. trace (await_for env ms r) = trace r @ dyn \<and> list_all quiet dyn"
  using quiet_cleanup_during[of env "emit [EvWait ms] r"]
  by (auto simp: await_for_def Let_def)

lemma quiet_await_forever:
  "\<exists>dyn. trace (await_forever env r) = trace r @ dyn \<and> list_all quiet dyn"
  using quiet_cleanup_during[of env r] by (auto simp: await_forever_def)

lemma quiet_speakAndWait:
  "\<exists>dyn. trace (speakAndWait env sp t mw r) = trace r @ dyn \<and> list_all quiet dyn"
proof (cases "speechEnabled env \<and> t \<noteq> []")
  case False
  then show ?thesis using quiet_await_for[of env mw r] by (auto simp: speakAndWait_def)
next
  case True
  define r1 where "r1 = (emit [EvSpeak t (speech_rate sp)] r)\<lparr>speaks := speaks r + 1\<rparr>"
  have t1: "trace r1 = trace r @ [EvSpeak t (speech_rate sp)]" by (simp add: r1_def)
  show ?thesis
  proof (cases "speak (manager env) t (speech_rate sp) (utterance env (speaks r))")
    case (Resolved el dur)
    obtain d2 where d2: "trace (await_for env el r1) = trace r1 @ d2" "list_all quiet d2"
      using quiet_await_for by blast
    obtain d3 where d3: "trace (await_for env (remaining_wait mw dur) (await_for env el r1))
        = trace (await_for env el r1) @ d3" "list_all quiet d3"
      using quiet_await_for by blast
    have "trace (speakAndWait env sp t mw r) = trace r @ ([EvSpeak t (speech_rate sp)] @ d2 @ d3)"
      using True Resolved d2 d3 t1 by (simp add: speakAndWait_def Let_def r1_def)
    moreover have "list_all quiet ([EvSpeak t (speech_rate sp)] @ d2 @ d3)" using d2 d3 by simp
    ultimately show ?thesis by blast
  next
    case Rejected
    then show ?thesis using True by (simp add: speakAndWait_def Let_def)
  next
    case Pending
    obtain d2 where d2: "trace (await_forever env r1) = trace r1 @ d2" "list_all quiet d2"
      using quiet_await_forever by blast
    have "trace (speakAndWait env sp t mw r) = trace r @ ([EvSpeak t (speech_rate sp)] @ d2)"
      using True Pending d2 t1 by (simp add: speakAndWait_def Let_def r1_def)
    moreover have "list_all quiet ([EvSpeak t (speech_rate sp)] @ d2)" using d2 by simp
    ultimately show ?thesis by blast
  qed
qed

lemma apply_quiet: "quiet e \<Longrightarrow> apply_event s e = s"
  by (cases e) auto

lemma foldl_quiet: "list_all quiet dyn \<Longrightarrow> foldl apply_event s dyn = s"
  by (induction dyn) (auto simp: apply_quiet)

lemma write_sync_quiet: "list_all quiet dyn \<Longrightarrow> write_sync cols s dyn"
proof (induction dyn)
  case Nil
  then show ?case by simp
next
  case (Cons e dyn)
  then show ?case by (cases e) auto
qed

lemma write_sync_append:
  "write_sync cols s a \<Longrightarrow> write_sync cols s (a @ b) = write_sync cols (foldl apply_event s a) b"
  by (induction cols s a rule: write_sync.induct) auto

lemma write_sync_snoc_quiet:
  "write_sync cols s a \<Longrightarrow> list_all quiet dyn \<Longrightarrow> write_sync cols s (a @ dyn)"
  by (simp add: write_sync_append write_sync_quiet)

lemma quiet_neutral: "quiet e \<Longrightarrow> neutral e"
  by (cases e) auto

lemma list_all_quiet_neutral: "list_all quiet dyn \<Longrightarrow> list_all neutral dyn"
  by (induction dyn) (auto simp: quiet_neutral)

lemma neutral_column: "neutral e \<Longrightarrow> currentColumn (apply_event s e) = currentColumn s"
  by (cases e) auto

lemma foldl_neutral_column:
  "list_all neutral dyn \<Longrightarrow> currentColumn (foldl apply_event s dyn) = currentColumn s"
  by (induction dyn arbitrary: s) (auto simp: neutral_column)

lemma write_sync_neutral: "list_all neutral dyn \<Longrightarrow> write_sync cols s dyn"
proof (induction dyn arbitrary: s)
  case Nil
  then show ?case by simp
next
  case (Cons e dyn)
  show ?case
  proof (cases e)
    case (EvSetPhase p)
    then show ?thesis using Cons by (cases p) auto
  qed (use Cons in auto)
qed

lemma sync_extend:
  assumes "write_sync cols s0 tr" and "list_all neutral dyn"
  shows "write_sync cols s0 (tr @ dyn)"
    and "currentColumn (foldl apply_event s0 (tr @ dyn)) = currentColumn (foldl apply_event s0 tr)"
  using assms by (simp_all add: write_sync_append write_sync_neutral foldl_neutral_column)

lemma exec_write_sync:
  "prog_sync cols cur prog \<Longrightarrow> write_sync (map column_resultDigit cols) s0 (trace r) \<Longrightarrow>
   currentColumn (foldl apply_event s0 (trace r)) = cur \<Longrightarrow>
   write_sync (map column_resultDigit cols) s0 (trace (snd (exec env sp prog r)))"
proof (induction prog arbitrary: r cur rule: length_induct)
  case (1 prog)
  note IH = "1.IH"[rule_format] and ps = "1.prems"(1) and ws = "1.prems"(2) and cc = "1.prems"(3)
  have go: "write_sync (map column_resultDigit cols) s0 (trace (snd (exec env sp rest r')))"
    if "length rest < length prog" "prog_sync cols cur rest" "trace r' = trace r @ dyn"
      "list_all neutral dyn" for rest r' dyn
    using IH[OF that(1) that(2)] sync_extend[OF ws that(4)] cc that(3) by simp
  show ?case
  proof (cases prog)
    case Nil
    then show ?thesis using ws by simp
  next
    case (Cons i rest)
    show ?thesis
    proof (cases i)
      case StopSpeech
      then show ?thesis using Cons ps go[of rest "emit [EvStop] r" "[EvStop]"] by simp
    next
      case (Delay ms)
      obtain dyn where "trace (await_for env ms r) = trace r @ dyn" "list_all quiet dyn"
        using quiet_await_for by blast
      then show ?thesis
        using Cons Delay ps go[of rest "await_for env ms r" dyn] list_all_quiet_neutral by simp
    next
      case (SpeakAndWait t mw)
      obtain dyn where d: "trace (speakAndWait env sp t mw r) = trace r @ dyn" "list_all quiet dyn"
        using quiet_speakAndWait by blast
      show ?thesis
      proof (cases "halt (speakAndWait env sp t mw r) = None")
        case True
        then show ?thesis
          using Cons SpeakAndWait ps d go[of rest "speakAndWait env sp t mw r" dyn]
            list_all_quiet_neutral by (simp add: Let_def)
      next
        case False
        then have "exec env sp prog r = (Halted, speakAndWait env sp t mw r)"
          unfolding Cons SpeakAndWait by (simp only: exec.simps Let_def if_False)
        then show ?thesis
          using d sync_extend(1)[OF ws list_all_quiet_neutral[OF d(2)]] by simp
      qed
    next
      case ReturnIfCancelled
      then show ?thesis using Cons ps ws go[of rest r "[]"] by simp
    next
      case (SetCurrentColumn c)
      have "write_sync (map column_resultDigit cols) s0 (trace r @ [EvSetCurrentColumn c])"
        using ws by (simp add: write_sync_append)
      moreover have "currentColumn (foldl apply_event s0 (trace r @ [EvSetCurrentColumn c])) = c"
        by simp
      ultimately show ?thesis
        using Cons SetCurrentColumn ps IH[of rest c "emit [EvSetCurrentColumn c] r"] by simp
    next
      case (SetPhase p)
      show ?thesis
      proof (cases "p = Write")
        case False
        then have "prog_sync cols cur rest" using Cons SetPhase ps by (cases p) auto
        then show ?thesis
          using Cons SetPhase False go[of rest "emit [EvSetPhase p] r" "[EvSetPhase p]"] by simp
      next
        case True
        then obtain d rest' where rest: "rest = PushWrittenDigit d # rest'"
          and ok: "0 \<le> cur" "nat cur < length cols" "d = column_resultDigit (cols ! nat cur)"
          and ps': "prog_sync cols cur rest'"
          using Cons SetPhase ps
          by (cases rest; cases "hd rest") auto
        have w: "write_sync (map column_resultDigit cols) s0 (trace r @ [EvSetPhase Write, EvPush d])"
          using ws ok cc by (simp add: write_sync_append)
        have c: "currentColumn (foldl apply_event s0 (trace r @ [EvSetPhase Write, EvPush d])) = cur"
          using cc by simp
        have e: "exec env sp prog r = exec env sp rest' (emit [EvSetPhase Write, EvPush d] r)"
          using Cons SetPhase True rest by (simp add: emit_def)
        show ?thesis
          unfolding e
          using IH[of rest' cur "emit [EvSetPhase Write, EvPush d] r"] ps' w c Cons rest by simp
      qed
    next
      case (PushWrittenDigit d)
      then show ?thesis using Cons ps by simp
    next
      case (SetIsDone b)
      then show ?thesis
        using Cons ps go[of rest "emit [EvSetIsDone b] r" "[EvSetIsDone b]"] by simp
    next
      case CallOnComplete
      then show ?thesis
        using Cons ps go[of rest "emit [EvComplete] r" "[EvComplete]"] by simp
    qed
  qed
qed

lemma exec_append:
  "exec env sp (a @ b) r =
     (if fst (exec env sp a r) = Finished then exec env sp b (snd (exec env sp a r))
      else exec env sp a r)"
  by (induction env sp a r rule: exec.induct) (auto simp: Let_def)

lemma prog_sync_column_steps:
  "n < length cols \<Longrightarrow> prog_sync cols cur (column_steps opn b n (cols ! n))"
  by (simp add: column_steps_def write_wait_def)

lemma exec_loop_write_sync:
  "n \<le> length cols \<Longrightarrow> write_sync (map column_resultDigit cols) s0 (trace r) \<Longrightarrow>
   write_sync (map column_resultDigit cols) s0 (trace (snd (exec env sp (loop_steps opn b cols n) r)))"
proof (induction n)
  case 0
  then show ?case by (simp add: loop_steps_def)
next
  case (Suc n)
  have split: "loop_steps opn b cols (Suc n) = loop_steps opn b cols n @ column_steps opn b n (cols ! n)"
    by (simp add: loop_steps_def)
  have ih: "write_sync (map column_resultDigit cols) s0 (trace (snd (exec env sp (loop_steps opn b cols n) r)))"
    using Suc by simp
  have n: "n < length cols" using Suc.prems by simp
  show ?case
    unfolding split exec_append
    using ih exec_write_sync[OF prog_sync_column_steps[OF n] ih refl]
    by simp
qed

lemma run_write_sync:
  "write_sync (map column_resultDigit (columns (decompose (problem props)))) initial_state
     (trace (snd (runAnimation props env)))"
proof -
  let ?cols = "columns (decompose (problem props))"
  let ?sp = "animationSpeed props"
  define pre where "pre = [StopSpeech, Delay (getDuration 600 ?sp), ReturnIfCancelled]"
  define lp where "lp = loop_steps (operation (problem props)) (getDuration 600 ?sp) ?cols (length ?cols)"
  define post where "post = [SetIsDone True,
            SpeakAndWait
              (getCompletionSpeech (isCorrect props) (answer (problem props)) (completion_draw env))
              (getDuration 600 ?sp),
            ReturnIfCancelled,
            CallOnComplete]"
  have prog: "runAnimation_steps props env = pre @ lp @ post"
    by (simp add: runAnimation_steps_def Let_def pre_def lp_def post_def length_columns_decompose)
  have w0: "write_sync (map column_resultDigit ?cols) initial_state (trace start_run)" by (simp add: start_run_def)
  have w1: "write_sync (map column_resultDigit ?cols) initial_state (trace (snd (exec env ?sp pre start_run)))"
    by (rule exec_write_sync[OF _ w0 refl]) (simp add: pre_def)
  have w2: "write_sync (map column_resultDigit ?cols) initial_state (trace (snd (exec env ?sp lp r)))"
    if "write_sync (map column_resultDigit ?cols) initial_state (trace r)" for r
    unfolding lp_def by (rule exec_loop_write_sync[OF _ that]) simp
  have w3: "write_sync (map column_resultDigit ?cols) initial_state (trace (snd (exec env ?sp post r)))"
    if "write_sync (map column_resultDigit ?cols) initial_state (trace r)" for r
    by (rule exec_write_sync[OF _ that refl]) (simp add: post_def)
  show ?thesis
    unfolding runAnimation_def prog exec_append
    using w1 w2 w3 by simp
qed

lemma after_cancel_ok_pre: "EvCancel \<notin> set pre \<Longrightarrow> after_cancel_ok (pre @ es) = after_cancel_ok es"
proof (induction pre)
  case Nil
  then show ?case by simp
next
  case (Cons e pre)
  then show ?case by (cases e) auto
qed

lemma cancelled_quietly_ok: "cancelled_quietly tr \<Longrightarrow> after_cancel_ok tr"
  by (auto simp: cancelled_quietly_def after_cancel_ok_pre)

lemma never_cancelled_ok: "EvCancel \<notin> set tr \<Longrightarrow> after_cancel_ok tr"
  using after_cancel_ok_pre[of tr "[]"] by simp

lemma cancel_inv_ok: "cancel_inv env r \<Longrightarrow> after_cancel_ok (trace r)"
  by (auto simp: cancel_inv_def cancelled_quietly_ok never_cancelled_ok split: if_splits)

lemma cancelled_quietly_wait:
  "cancelled_quietly tr \<Longrightarrow> cancelled_quietly (tr @ [EvWait ms])"
  unfolding cancelled_quietly_def
proof (elim exE conjE)
  fix pre ws assume "tr = pre @ [EvCancel, EvStop] @ ws" "EvCancel \<notin> set pre" "list_all is_wait ws"
  then have "tr @ [EvWait ms] = pre @ [EvCancel, EvStop] @ (ws @ [EvWait ms]) \<and>
      EvCancel \<notin> set pre \<and> list_all is_wait (ws @ [EvWait ms])" by simp
  then show "\<exists>pre ws. tr @ [EvWait ms] = pre @ [EvCancel, EvStop] @ ws \<and> EvCancel \<notin> set pre \<and>
      list_all is_wait ws" by blast
qed

lemma cancelled_quietly_now:
  "EvCancel \<notin> set tr \<Longrightarrow> cancelled_quietly (tr @ [EvCancel, EvStop])"
  unfolding cancelled_quietly_def by (rule exI[of _ tr], rule exI[of _ "[]"]) simp

lemma cancel_inv_await_for:
  assumes "cancel_inv env r" and "halt r = None"
  shows "cancel_inv env (await_for env ms r)" and "halt (await_for env ms r) = None"
proof -
  show "halt (await_for env ms r) = None"
    using assms(2) by (simp add: await_for_def cleanup_during_def Let_def)
  show "cancel_inv env (await_for env ms r)"
  proof (cases "cancelled r")
    case True
    then have q: "cancelled_quietly (trace r)"
      and k: "\<forall>k. cancel_at env = Some k \<longrightarrow> k < awaits r"
      using assms by (simp_all add: cancel_inv_def)
    have no: "cancel_at env \<noteq> Some (awaits r)" using k by auto
    have "await_for env ms r = (emit [EvWait ms] r)\<lparr>awaits := awaits r + 1\<rparr>"
      using no by (simp add: await_for_def cleanup_during_def Let_def)
    then show ?thesis
      using True q k cancelled_quietly_wait[OF q, of ms] by (auto simp: cancel_inv_def)
  next
    case False
    then have n: "EvCancel \<notin> set (trace r)" using assms by (simp add: cancel_inv_def)
    show ?thesis
    proof (cases "cancel_at env = Some (awaits r)")
      case True
      have n': "EvCancel \<notin> set (trace r @ [EvWait ms])" using n by simp
      have "await_for env ms r
          = (emit [EvWait ms, EvCancel, EvStop] r)\<lparr>cancelled := True, awaits := awaits r + 1\<rparr>"
        using True by (simp add: await_for_def cleanup_during_def Let_def emit_def)
      then show ?thesis
        using True cancelled_quietly_now[OF n'] by (simp add: cancel_inv_def)
    next
      case c: False
      have "await_for env ms r = (emit [EvWait ms] r)\<lparr>awaits := awaits r + 1\<rparr>"
        using c by (simp add: await_for_def cleanup_during_def Let_def)
      then show ?thesis using False n by (simp add: cancel_inv_def)
    qed
  qed
qed

lemma cancel_inv_await_forever:
  assumes "cancel_inv env r" and "\<not> cancelled r"
  shows "cancel_inv env (await_forever env r)"
proof -
  have n: "EvCancel \<notin> set (trace r)" using assms by (simp add: cancel_inv_def)
  show ?thesis
    using assms(2) n cancelled_quietly_now[OF n]
    by (simp add: await_forever_def cleanup_during_def cancel_inv_def)
qed

lemma cancel_inv_emit:
  "cancel_inv env r \<Longrightarrow> \<not> cancelled r \<Longrightarrow> EvCancel \<notin> set evs \<Longrightarrow> cancel_inv env (emit evs r)"
  by (simp add: cancel_inv_def)

lemma cancel_inv_speakAndWait:
  assumes "cancel_inv env r" and "\<not> cancelled r" and "halt r = None"
  shows "cancel_inv env (speakAndWait env sp t mw r)"
proof (cases "speechEnabled env \<and> t \<noteq> []")
  case False
  then show ?thesis using cancel_inv_await_for(1)[OF assms(1,3)] by (auto simp: speakAndWait_def)
next
  case True
  define r1 where "r1 = (emit [EvSpeak t (speech_rate sp)] r)\<lparr>speaks := speaks r + 1\<rparr>"
  have i1: "cancel_inv env r1" and c1: "\<not> cancelled r1" and h1: "halt r1 = None"
    using assms by (simp_all add: r1_def cancel_inv_def)
  show ?thesis
  proof (cases "speak (manager env) t (speech_rate sp) (utterance env (speaks r))")
    case (Resolved el dur)
    have "cancel_inv env (await_for env (remaining_wait mw dur) (await_for env el r1))"
      by (intro cancel_inv_await_for i1 h1)
    then show ?thesis using True Resolved by (simp add: speakAndWait_def Let_def r1_def)
  next
    case Rejected
    have "cancel_inv env (r1\<lparr>halt := Some Threw\<rparr>)" using i1 c1 by (simp add: cancel_inv_def)
    then show ?thesis using True Rejected by (simp add: speakAndWait_def Let_def r1_def)
  next
    case Pending
    then show ?thesis
      using True cancel_inv_await_forever[OF i1 c1] by (simp add: speakAndWait_def Let_def r1_def)
  qed
qed

lemma exec_cancel_inv:
  "guard g prog = Some g' \<Longrightarrow> (g \<longrightarrow> \<not> cancelled r) \<Longrightarrow> halt r = None \<Longrightarrow> cancel_inv env r \<Longrightarrow>
   cancel_inv env (snd (exec env sp prog r)) \<and>
   (fst (exec env sp prog r) = Finished \<longrightarrow>
      halt (snd (exec env sp prog r)) = None \<and> (g' \<longrightarrow> \<not> cancelled (snd (exec env sp prog r))))"
proof (induction prog arbitrary: r g)
  case Nil
  then show ?case by simp
next
  case (Cons i rest)
  note gd = Cons.prems(1) and nc = Cons.prems(2) and h = Cons.prems(3) and inv = Cons.prems(4)
  show ?case
  proof (cases i)
    case StopSpeech
    then have g: "g" "guard g rest = Some g'" using gd by (auto split: if_splits)
    show ?thesis
      using Cons.IH[OF g(2), of "emit [EvStop] r"] g(1) nc h cancel_inv_emit[OF inv, of "[EvStop]"]
      by (simp add: StopSpeech)
  next
    case (Delay ms)
    then have g: "guard False rest = Some g'" using gd by simp
    show ?thesis
      using Cons.IH[OF g, of "await_for env ms r"] cancel_inv_await_for[OF inv h, of ms]
      by (simp add: Delay)
  next
    case (SpeakAndWait t mw)
    then have g: "g" "guard False rest = Some g'" using gd by (auto split: if_splits)
    have i1: "cancel_inv env (speakAndWait env sp t mw r)"
      using cancel_inv_speakAndWait[OF inv _ h] g(1) nc by simp
    show ?thesis
    proof (cases "halt (speakAndWait env sp t mw r) = None")
      case True
      then show ?thesis
        using Cons.IH[OF g(2), of "speakAndWait env sp t mw r"] i1
        by (simp add: SpeakAndWait Let_def)
    next
      case False
      then have "exec env sp (i # rest) r = (Halted, speakAndWait env sp t mw r)"
        unfolding SpeakAndWait by (simp only: exec.simps Let_def if_False)
      then show ?thesis using i1 by simp
    qed
  next
    case ReturnIfCancelled
    then have g: "guard True rest = Some g'" using gd by simp
    show ?thesis
    proof (cases "cancelled r")
      case True
      then show ?thesis using inv by (simp add: ReturnIfCancelled)
    next
      case False
      then show ?thesis using Cons.IH[OF g, of r] h inv by (simp add: ReturnIfCancelled)
    qed
  next
    case (SetCurrentColumn c)
    then have g: "g" "guard g rest = Some g'" using gd by (auto split: if_splits)
    show ?thesis
      using Cons.IH[OF g(2), of "emit [EvSetCurrentColumn c] r"] g(1) nc h
        cancel_inv_emit[OF inv, of "[EvSetCurrentColumn c]"]
      by (simp add: SetCurrentColumn)
  next
    case (SetPhase p)
    then have g: "g" "guard g rest = Some g'" using gd by (auto split: if_splits)
    show ?thesis
      using Cons.IH[OF g(2), of "emit [EvSetPhase p] r"] g(1) nc h
        cancel_inv_emit[OF inv, of "[EvSetPhase p]"]
      by (simp add: SetPhase)
  next
    case (PushWrittenDigit d)
    then have g: "g" "guard g rest = Some g'" using gd by (auto split: if_splits)
    show ?thesis
      using Cons.IH[OF g(2), of "emit [EvPush d] r"] g(1) nc h
        cancel_inv_emit[OF inv, of "[EvPush d]"]
      by (simp add: PushWrittenDigit)
  next
    case (SetIsDone b)
    then have g: "g" "guard g rest = Some g'" using gd by (auto split: if_splits)
    show ?thesis
      using Cons.IH[OF g(2), of "emit [EvSetIsDone b] r"] g(1) nc h
        cancel_inv_emit[OF inv, of "[EvSetIsDone b]"]
      by (simp add: SetIsDone)
  next
    case CallOnComplete
    then have g: "g" "guard g rest = Some g'" using gd by (auto split: if_splits)
    show ?thesis
      using Cons.IH[OF g(2), of "emit [EvComplete] r"] g(1) nc h
        cancel_inv_emit[OF inv, of "[EvComplete]"]
      by (simp add: CallOnComplete)
  qed
qed

lemma guard_append:
  "guard g (a @ b) = (case guard g a of None \<Rightarrow> None | Some g1 \<Rightarrow> guard g1 b)"
proof (induction a arbitrary: g)
  case Nil
  then show ?case by simp
next
  case (Cons i a)
  then show ?case by (cases i) auto
qed

lemma guard_column_steps: "guard True (column_steps opn b n c) = Some True"
  by (simp add: column_steps_def write_wait_def)

lemma guard_loop_steps: "guard True (loop_steps opn b cols n) = Some True"
proof (induction n)
  case 0
  then show ?case by (simp add: loop_steps_def)
next
  case (Suc n)
  have "loop_steps opn b cols (Suc n) = loop_steps opn b cols n @ column_steps opn b n (cols ! n)"
    by (simp add: loop_steps_def)
  then show ?case using Suc by (simp add: guard_append guard_column_steps)
qed

lemma guard_runAnimation_steps: "guard True (runAnimation_steps props env) = Some True"
  by (simp add: runAnimation_steps_def Let_def guard_append guard_loop_steps)

lemma cancel_inv_start: "cancel_inv env start_run"
  by (simp add: cancel_inv_def start_run_def)

lemma run_cancel_inv:
  "cancel_inv env (snd (runAnimation props env))"
  and run_finished_uncancelled:
  "fst (runAnimation props env) = Finished \<Longrightarrow> \<not> cancelled (snd (runAnimation props env))"
  using exec_cancel_inv[where g = True and g' = True and r = start_run and env = env
      and sp = "animationSpeed props" and prog = "runAnimation_steps props env",
      OF guard_runAnimation_steps _ _ cancel_inv_start]
  by (simp_all add: runAnimation_def start_run_def)

subsection \<open>Progress\<close>

lemma settled_await_for:
  "cancel_at env = None \<Longrightarrow>
   cancelled (await_for env ms r) = cancelled r \<and> halt (await_for env ms r) = halt r"
  by (simp add: await_for_def cleanup_during_def Let_def)

lemma speak_not_pending:
  "\<not> synth mgr \<or> \<not> enabled mgr \<or> fate \<noteq> FiresNothing \<Longrightarrow> speak mgr t x fate \<noteq> Pending"
  by (cases fate) (auto simp: speak_def Let_def)

lemma speak_not_rejected: "speak mgr t x fate \<noteq> Rejected"
  by (cases fate) (auto simp: speak_def Let_def)

lemma settled_speakAndWait:
  assumes "cancel_at env = None" and "settles env"
  shows "cancelled (speakAndWait env sp t mw r) = cancelled r \<and>
         halt (speakAndWait env sp t mw r) = halt r"
proof (cases "speechEnabled env \<and> t \<noteq> []")
  case False
  then show ?thesis using settled_await_for[OF assms(1)] by (auto simp: speakAndWait_def)
next
  case True
  have np: "speak (manager env) t (speech_rate sp) (utterance env (speaks r)) \<noteq> Pending"
    using assms(2) True by (intro speak_not_pending) (auto simp: settles_def)
  show ?thesis
  proof (cases "speak (manager env) t (speech_rate sp) (utterance env (speaks r))")
    case (Resolved el dur)
    then show ?thesis
      using True settled_await_for[OF assms(1)] by (simp add: speakAndWait_def Let_def)
  next
    case Rejected
    then show ?thesis using speak_not_rejected by blast
  next
    case Pending
    then show ?thesis using np by simp
  qed
qed

lemma exec_progress:
  "cancel_at env = None \<Longrightarrow> settles env \<Longrightarrow> \<not> cancelled r \<Longrightarrow> halt r = None \<Longrightarrow>
   fst (exec env sp prog r) = Finished \<and> \<not> cancelled (snd (exec env sp prog r)) \<and>
   halt (snd (exec env sp prog r)) = None"
proof (induction env sp prog r rule: exec.induct)
  case (3 env speed ms rest r)
  then show ?case using settled_await_for[of env ms r] by simp
next
  case (4 env speed tx minWait rest r)
  then show ?case using settled_speakAndWait[of env speed tx minWait r] by (simp add: Let_def)
qed simp_all





subsection \<open>Phase entries of a run\<close>

lemma phase_entries_column_script:
  "phase_entries s (column_script opn i c) =
     [(int i, Highlight), (int i, Calc)]
     @ (if hasCarryOrBorrow opn c then [(int i, Carry)] else [])
     @ [(int i, Write)]"
  by (simp add: column_script_def)

lemma phase_entries_loop_script:
  assumes "\<forall>c \<in> set cols. hasCarryOrBorrow opn c = needs_carry_phase c" and "n \<le> length cols"
  shows "phase_entries s (loop_script opn cols n)
           = concat (map (\<lambda>i. expected_column_phases i (cols ! i)) [0..<n])"
  using assms(2)
proof (induction n)
  case 0
  then show ?case by (simp add: loop_script_0)
next
  case (Suc n)
  then have "hasCarryOrBorrow opn (cols ! n) = needs_carry_phase (cols ! n)"
    using assms(1) by simp
  then show ?case
    using Suc
    by (simp add: loop_script_Suc phase_entries_append phase_entries_column_script
        expected_column_phases_def)
qed

lemma phase_entries_run_setters:
  "phase_entries initial_state (run_setters props)
     = expected_phases (columns (decompose (problem props)))"
proof -
  let ?cols = "columns (decompose (problem props))"
  have "\<forall>c \<in> set ?cols. hasCarryOrBorrow (operation (problem props)) c = needs_carry_phase c"
    using hasCarryOrBorrow_decompose by blast
  from phase_entries_loop_script[OF this order_refl, of initial_state]
  show ?thesis by (simp add: run_setters_def phase_entries_append expected_phases_def)
qed

lemma carry_in_expected:
  "(k, Carry) \<in> set (expected_phases cols) \<longleftrightarrow>
     (\<exists>i < length cols. k = int i \<and> needs_carry_phase (cols ! i))"
  by (auto simp: expected_phases_def expected_column_phases_def)

lemma run_setters_prefix:
  "prefix (filter is_setter (trace (snd (runAnimation props env)))) (run_setters props)"
  and run_setters_finished:
  "fst (runAnimation props env) = Finished \<Longrightarrow>
     filter is_setter (trace (snd (runAnimation props env))) = run_setters props"
proof -
  have df: "dynamic_free is_setter" by (simp add: dynamic_free_def)
  note e = exec_filter[OF df, of env "animationSpeed props" "runAnimation_steps props env" start_run]
  have t0: "trace start_run = []" by (simp add: start_run_def)
  show "prefix (filter is_setter (trace (snd (runAnimation props env)))) (run_setters props)"
    using e by (simp add: runAnimation_def t0 script_runAnimation_steps filter_run_script)
  show "fst (runAnimation props env) = Finished \<Longrightarrow>
     filter is_setter (trace (snd (runAnimation props env))) = run_setters props"
    using e by (simp add: runAnimation_def t0 script_runAnimation_steps filter_run_script)
qed

section \<open>The carry phase\<close>

text \<open>
  Claim C4. The phases a run enters, each with the column that is current at that moment,
  are a prefix of the expected sequence: for each column in order highlight, calc, then
  carry exactly when the column has \<open>carryOut > 0\<close> (addition) or
  \<open>needsBorrow\<close> (subtraction), then write. A run that finishes enters the whole
  sequence, so it enters the carry phase of a column if and only if that column needs
  it; no run enters a carry phase for a column that does not need it, and when no column
  needs it the carry phase is never entered.
\<close>

theorem carry_phase_rule:
  "prefix (phase_entries initial_state (trace (snd (runAnimation props env))))
          (expected_phases (columns (decompose (problem props)))) \<and>
   (fst (runAnimation props env) = Finished \<longrightarrow>
      phase_entries initial_state (trace (snd (runAnimation props env)))
        = expected_phases (columns (decompose (problem props))) \<and>
      (\<forall>i < length (columns (decompose (problem props))).
         (int i, Carry) \<in> set (phase_entries initial_state (trace (snd (runAnimation props env))))
           \<longleftrightarrow> needs_carry_phase (columns (decompose (problem props)) ! i))) \<and>
   (\<forall>i. (int i, Carry) \<in> set (phase_entries initial_state (trace (snd (runAnimation props env))))
        \<longrightarrow> i < length (columns (decompose (problem props))) \<and>
            needs_carry_phase (columns (decompose (problem props)) ! i)) \<and>
   ((\<forall>c \<in> set (columns (decompose (problem props))). \<not> needs_carry_phase c) \<longrightarrow>
      (\<forall>k. (k, Carry) \<notin> set (phase_entries initial_state (trace (snd (runAnimation props env))))))"
proof -
  let ?cols = "columns (decompose (problem props))"
  let ?pe = "phase_entries initial_state (trace (snd (runAnimation props env)))"
  have pe: "?pe = phase_entries initial_state (filter is_setter (trace (snd (runAnimation props env))))"
    by (simp add: phase_entries_filter)
  have p: "prefix ?pe (expected_phases ?cols)"
    unfolding pe using phase_entries_prefix[OF run_setters_prefix, of initial_state props env]
    by (simp add: phase_entries_run_setters)
  have f: "?pe = expected_phases ?cols" if "fst (runAnimation props env) = Finished"
    unfolding pe using run_setters_finished[OF that] by (simp add: phase_entries_run_setters)
  have sub: "set ?pe \<subseteq> set (expected_phases ?cols)" using p by (rule set_mono_prefix)
  have a: "(int i, Carry) \<in> set ?pe \<longrightarrow> i < length ?cols \<and> needs_carry_phase (?cols ! i)" for i
    using sub carry_in_expected[of "int i" ?cols] by auto
  have b: "(k, Carry) \<notin> set ?pe" if "\<forall>c \<in> set ?cols. \<not> needs_carry_phase c" for k
    using sub carry_in_expected[of k ?cols] that by (auto simp: subset_iff)
  have c: "(int i, Carry) \<in> set ?pe \<longleftrightarrow> needs_carry_phase (?cols ! i)"
    if "fst (runAnimation props env) = Finished" "i < length ?cols" for i
    unfolding f[OF that(1)] using carry_in_expected[of "int i" ?cols] that(2) by auto
  show ?thesis using p f a b c by blast
qed

section \<open>The written digits\<close>

lemma result_digits_columns:
  "map column_resultDigit (columns (decompose p)) = result_digits p"
  by (cases "operation p")
    (simp_all add: result_digits_def decompose_def Let_def addition_columns_map
      subtraction_columns_map comp_def)

text \<open>
  Claim C3. Along every run that starts from the reset state, \<open>currentColumn\<close> never
  decreases and \<open>writtenDigits\<close> only grows, staying an initial part of the
  \<open>resultDigit\<close> fields of the columns; every entry into the write phase is followed
  at once, with no wait or speech between, by the push of the \<open>resultDigit\<close> field
  of the current column, and no digit is pushed otherwise; every state with \<open>isDone\<close>
  has as \<open>writtenDigits\<close> the \<open>resultDigit\<close> fields of all columns in order, one
  per column; and a run that finishes ends with \<open>isDone\<close> set and these digits
  written.
\<close>

theorem sequencer_written_digits:
  "sorted (map currentColumn (history initial_state (trace (snd (runAnimation props env))))) \<and>
   sorted_wrt prefix (map writtenDigits (history initial_state (trace (snd (runAnimation props env))))) \<and>
   (\<forall>s \<in> set (history initial_state (trace (snd (runAnimation props env)))).
      prefix (writtenDigits s) (result_digits (problem props))) \<and>
   write_sync (result_digits (problem props)) initial_state
     (trace (snd (runAnimation props env))) \<and>
   length (result_digits (problem props)) = maxDigits (decompose (problem props)) \<and>
   (\<forall>s \<in> set (history initial_state (trace (snd (runAnimation props env)))).
      isDone s \<longrightarrow>
        writtenDigits s = result_digits (problem props) \<and>
        length (writtenDigits s) = maxDigits (decompose (problem props))) \<and>
   (fst (runAnimation props env) = Finished \<longrightarrow>
      isDone (last (history initial_state (trace (snd (runAnimation props env))))) \<and>
      writtenDigits (last (history initial_state (trace (snd (runAnimation props env)))))
        = result_digits (problem props))"
proof -
  let ?h = "history initial_state (trace (snd (runAnimation props env)))"
  let ?cols = "columns (decompose (problem props))"
  note ok = run_history_ok[of props env]
  note rd = result_digits_columns[of "problem props"]
  have len: "length (result_digits (problem props)) = maxDigits (decompose (problem props))"
    unfolding rd[symmetric] by (simp add: length_columns_decompose)
  have d: "writtenDigits s = result_digits (problem props) \<and>
           length (writtenDigits s) = maxDigits (decompose (problem props))"
    if "s \<in> set ?h" "isDone s" for s
  proof -
    have "s = done_state ?cols" using ok(3) that by blast
    then show ?thesis using rd len by (simp add: done_state_def)
  qed
  have l: "isDone (last ?h) \<and> writtenDigits (last ?h) = result_digits (problem props)"
    if "fst (runAnimation props env) = Finished"
    using ok(4) that rd by (simp add: done_state_def)
  have p: "prefix (writtenDigits s) (result_digits (problem props))" if "s \<in> set ?h" for s
    using run_history_digits[of s props env] that rd by simp
  have w: "write_sync (result_digits (problem props)) initial_state
     (trace (snd (runAnimation props env)))"
    using run_write_sync[of props env] unfolding rd .
  show ?thesis using ok(1) ok(2) w len d l p by blast
qed

lemma run_env0_finished: "fst (runAnimation props env0) = Finished"
  unfolding runAnimation_def
  using exec_progress[of env0 start_run "animationSpeed props" "runAnimation_steps props env0"]
  by (simp add: env0_def settles_def start_run_def)

lemma decompose_p75:
  "columns (decompose p75) =
     [AddColumn \<lparr>ColumnCalc.placeIndex = 0, placeName = ''ones'', op1Digit = 7, op2Digit = 5,
                 carryIn = 0, sum_col = 12, resultDigit = 2, carryOut = 1\<rparr>,
      AddColumn \<lparr>ColumnCalc.placeIndex = 1, placeName = ''tens'', op1Digit = 0, op2Digit = 0,
                 carryIn = 1, sum_col = 1, resultDigit = 1, carryOut = 0\<rparr>]"
  by (simp add: decompose_def p75_def getDigits_def getDigits_loop.simps padDigits_def
      padDigits_loop.simps addition_pass.simps js_rem_def at_or_zero_def Let_def place_name_def
      PLACE_NAMES_def)

lemma decompose_p2_3:
  "columns (decompose p2_3) =
     [AddColumn \<lparr>ColumnCalc.placeIndex = 0, placeName = ''ones'', op1Digit = 2, op2Digit = 3,
                 carryIn = 0, sum_col = 5, resultDigit = 5, carryOut = 0\<rparr>]"
  by (simp add: decompose_def p2_3_def getDigits_def getDigits_loop.simps padDigits_def
      padDigits_loop.simps addition_pass.simps js_rem_def at_or_zero_def Let_def place_name_def
      PLACE_NAMES_def)

lemma result_digits_p75: "result_digits (problem props75) = [2, 1]"
  by (simp add: result_digits_def props75_def decompose_p75) (simp add: p75_def)

theorem sequencer_written_digits_witness:
  "fst (runAnimation props75 env0) = Finished \<and>
   sorted (map currentColumn (history initial_state (trace (snd (runAnimation props75 env0))))) \<and>
   sorted_wrt prefix (map writtenDigits (history initial_state (trace (snd (runAnimation props75 env0))))) \<and>
   write_sync [2, 1] initial_state (trace (snd (runAnimation props75 env0))) \<and>
   isDone (last (history initial_state (trace (snd (runAnimation props75 env0))))) \<and>
   writtenDigits (last (history initial_state (trace (snd (runAnimation props75 env0))))) = [2, 1] \<and>
   maxDigits (decompose (problem props75)) = 2"
  using sequencer_written_digits[of props75 env0] run_env0_finished[of props75]
  unfolding result_digits_p75 by simp

theorem carry_phase_rule_witness:
  "fst (runAnimation props75 env0) = Finished \<and>
   phase_entries initial_state (trace (snd (runAnimation props75 env0)))
     = [(0, Highlight), (0, Calc), (0, Carry), (0, Write), (1, Highlight), (1, Calc), (1, Write)] \<and>
   list_all (\<lambda>c. \<not> needs_carry_phase c) (columns (decompose (problem props2_3))) \<and>
   (0, Carry) \<notin> set (phase_entries initial_state (trace (snd (runAnimation props2_3 env0))))"
proof -
  have e: "expected_phases (columns (decompose (problem props75)))
      = [(0, Highlight), (0, Calc), (0, Carry), (0, Write), (1, Highlight), (1, Calc), (1, Write)]"
    by (simp add: props75_def decompose_p75 expected_phases_def expected_column_phases_def
        upt_rec[of 0] upt_rec[of 1])
  have n: "\<forall>c \<in> set (columns (decompose (problem props2_3))). \<not> needs_carry_phase c"
    by (simp add: props2_3_def decompose_p2_3)
  show ?thesis
    using carry_phase_rule[of props75 env0] carry_phase_rule[of props2_3 env0]
      run_env0_finished[of props75] n
    unfolding e list_all_iff by blast
qed

section \<open>The write-phase text\<close>

text \<open>
  Claim C6. For an addition column the write-phase text is
  \<open>Write {resultDigit} in the {placeName} place.\<close> if and only if \<open>carryOut\<close> is 0, and
  it is empty otherwise; for a subtraction column it is always that non-empty text.
  The write phase of the sequencer speaks exactly when the text is not empty: with an
  empty text it only waits.
\<close>

theorem write_text_rule:
  "(getAdditionSpeechText ''write'' pn d1 d2 cin sm rd cout
      = ''Write '' @ show_int rd @ '' in the '' @ pn @ '' place.'') = (cout = 0) \<and>
   getAdditionSpeechText ''write'' pn d1 d2 cin sm rd cout
      = (if cout = 0 then ''Write '' @ show_int rd @ '' in the '' @ pn @ '' place.'' else []) \<and>
   getSubtractionSpeechText ''write'' pn d1 d2 bin nb bv rd
      = ''Write '' @ show_int rd @ '' in the '' @ pn @ '' place.'' \<and>
   getSubtractionSpeechText ''write'' pn d1 d2 bin nb bv rd \<noteq> [] \<and>
   write_wait b (AddColumn c)
      = (if carryOut c = 0
         then SpeakAndWait (''Write '' @ show_int (ColumnCalc.resultDigit c) @ '' in the ''
                @ ColumnCalc.placeName c @ '' place.'') (b * (4 / 5))
         else Delay (b * (4 / 5))) \<and>
   write_wait b (SubColumn s)
      = SpeakAndWait (''Write '' @ show_int (resultDigit s) @ '' in the '' @ placeName s
          @ '' place.'') (b * (4 / 5)) \<and>
   exec env sp [Delay (b * (4 / 5))] r = (Finished, await_for env (b * (4 / 5)) r) \<and>
   filter (\<lambda>e. \<exists>t x. e = EvSpeak t x) (trace (await_for env (b * (4 / 5)) r))
      = filter (\<lambda>e. \<exists>t x. e = EvSpeak t x) (trace r)"
  by (simp add: getAdditionSpeechText_def getSubtractionSpeechText_def write_wait_def
      await_for_def cleanup_during_def Let_def)

section \<open>The promise of speak\<close>

text \<open>
  Claim C10, as stated, fails: \<open>speak\<close> does not resolve for every input. With a
  synthesizer, and enabled, the promise is resolved by the handlers of \<open>end\<close> and
  \<open>error\<close> only; for an utterance that fires neither it never settles.
\<close>

theorem speak_may_stay_pending:
  "speak \<lparr>synth = True, enabled = True\<rparr> ''Write 2 in the ones place.'' 1 FiresNothing = Pending"
  by (simp add: speak_def)

text \<open>
  Claim C10, amended. \<open>speak\<close> never rejects. Without a synthesizer, or when disabled,
  it resolves at once with \<open>(text.length / 15) * 1000 / rate\<close>, JavaScript's quotient:
  the rational one for a rate other than 0, and \<open>Infinity\<close> or \<open>NaN\<close> for the rate
  0. With a synthesizer and enabled, it resolves with the elapsed time when the utterance
  fires \<open>end\<close> or \<open>error\<close>, so an error resolves the promise, and it stays pending
  when the utterance fires neither. These are the only cases: the promise stays pending
  exactly when there is a synthesizer, speech is enabled and the utterance fires neither
  event, and it is resolved otherwise.
\<close>

theorem speak_never_rejects:
  "speak mgr t rate fate \<noteq> Rejected \<and>
   (\<not> synth mgr \<or> \<not> enabled mgr \<longrightarrow>
      speak mgr t rate fate = Resolved 0 (js_divide ((of_nat (length t) / 15) * 1000) rate) \<and>
      (rate \<noteq> 0 \<longrightarrow>
         speak mgr t rate fate = Resolved 0 (Finite ((of_nat (length t) / 15) * 1000 / rate))) \<and>
      (rate = 0 \<longrightarrow>
         speak mgr t rate fate = Resolved 0 (if t = [] then NotANumber else PlusInfinity))) \<and>
   (synth mgr \<and> enabled mgr \<longrightarrow>
      speak mgr t rate (FiresEnd d) = Resolved d (Finite d) \<and>
      speak mgr t rate (FiresError d) = Resolved d (Finite d) \<and>
      speak mgr t rate FiresNothing = Pending) \<and>
   (speak mgr t rate fate = Pending \<longleftrightarrow> synth mgr \<and> enabled mgr \<and> fate = FiresNothing) \<and>
   (speak mgr t rate fate \<noteq> Pending \<longrightarrow> (\<exists>after v. speak mgr t rate fate = Resolved after v))"
  by (cases fate) (auto simp: speak_def js_divide_def Let_def)

theorem speak_never_rejects_witness:
  "\<not> synth (manager env_nosynth) \<and>
   speak (manager env_nosynth) ''Write 2 in the ones place.'' 1 FiresNothing
     = Resolved 0 (Finite (5200 / 3)) \<and>
   speak (manager env_nosynth) ''Write 2 in the ones place.'' 0 FiresNothing
     = Resolved 0 PlusInfinity \<and>
   synth (manager env_silent) \<and> enabled (manager env_silent) \<and>
   speak (manager env_silent) ''Write 2 in the ones place.'' 1 (FiresError 40)
     = Resolved 40 (Finite 40) \<and>
   speak (manager env_silent) ''Write 2 in the ones place.'' 1 (FiresEnd 1500)
     = Resolved 1500 (Finite 1500) \<and>
   speak (manager env_silent) ''Write 2 in the ones place.'' 1 FiresNothing = Pending"
  using speak_never_rejects[of "manager env_nosynth" "''Write 2 in the ones place.''" 1 FiresNothing 0]
    speak_never_rejects[of "manager env_nosynth" "''Write 2 in the ones place.''" 0 FiresNothing 0]
    speak_never_rejects[of "manager env_silent" "''Write 2 in the ones place.''" 1 FiresNothing 40]
    speak_never_rejects[of "manager env_silent" "''Write 2 in the ones place.''" 1 FiresNothing 1500]
  by (simp add: env_nosynth_def env_silent_def js_divide_def)

section \<open>Completion of a run\<close>

lemma foldl_apply_filter: "foldl apply_event s (filter is_setter tr) = foldl apply_event s tr"
proof (induction tr arbitrary: s)
  case Nil
  then show ?case by simp
next
  case (Cons e tr)
  then show ?case by (cases e) auto
qed

lemma runAnimation_steps_split:
  "runAnimation_steps props env =
     run_body props @ [SetIsDone True]
     @ [SpeakAndWait (completion_text props env) (getDuration 600 (animationSpeed props)),
        ReturnIfCancelled]
     @ [CallOnComplete]"
  by (simp add: runAnimation_steps_def Let_def run_body_def completion_text_def)

lemma script_run_body:
  "script (run_body props)
     = EvStop # loop_script (operation (problem props)) (columns (decompose (problem props)))
         (length (columns (decompose (problem props))))"
proof -
  have a: "script [StopSpeech, Delay x, ReturnIfCancelled] = [EvStop]" for x
    by (simp add: script_def)
  show ?thesis
    unfolding run_body_def script_append script_loop_steps a length_columns_decompose by simp
qed

lemma loop_script_no_complete:
  "filter (\<lambda>e. e = EvComplete) (loop_script opn cols n) = []"
  by (induction n) (simp_all add: loop_script_0 loop_script_Suc column_script_def)

lemma dynamic_free_complete: "dynamic_free (\<lambda>e. e = EvComplete)"
  by (simp add: dynamic_free_def)

lemma stopped_run_no_complete:
  assumes "fst (runAnimation props env) \<noteq> Finished"
  shows "EvComplete \<notin> set (trace (snd (runAnimation props env)))"
proof -
  let ?sp = "animationSpeed props"
  define front where "front = run_body props @ [SetIsDone True]
     @ [SpeakAndWait (completion_text props env) (getDuration 600 ?sp), ReturnIfCancelled]"
  have prog: "runAnimation_steps props env = front @ [CallOnComplete]"
    by (simp add: runAnimation_steps_split front_def)
  have nf: "fst (exec env ?sp front start_run) \<noteq> Finished"
    using assms unfolding runAnimation_def prog exec_append by (auto split: if_splits)
  then have same: "runAnimation props env = exec env ?sp front start_run"
    unfolding runAnimation_def prog exec_append by simp
  have sc: "filter (\<lambda>e. e = EvComplete) (script front) = []"
    by (simp add: front_def script_append script_run_body loop_script_no_complete)
      (simp add: script_def)
  have "prefix (filter (\<lambda>e. e = EvComplete) (trace (snd (exec env ?sp front start_run)))) []"
    using exec_filter[OF dynamic_free_complete, of env ?sp front start_run] sc
    by (simp add: start_run_def)
  then have "filter (\<lambda>e. e = EvComplete) (trace (snd (runAnimation props env))) = []"
    unfolding same by simp
  then show ?thesis by (auto simp: filter_empty_conv)
qed

lemma run_completions_le: "completions (trace (snd (runAnimation props env))) \<le> 1"
proof -
  have sc: "filter (\<lambda>e. e = EvComplete) (run_script props) = [EvComplete]"
    by (simp add: run_script_def loop_script_no_complete)
  have "prefix (filter (\<lambda>e. e = EvComplete) (trace (snd (runAnimation props env)))) [EvComplete]"
    using exec_filter[OF dynamic_free_complete, of env "animationSpeed props"
        "runAnimation_steps props env" start_run] sc
    by (simp add: runAnimation_def start_run_def script_runAnimation_steps)
  then show ?thesis
    unfolding completions_def using prefix_length_le by fastforce
qed

lemma finished_run_shape:
  assumes "fst (runAnimation props env) = Finished"
  shows "\<exists>r3. last (trace r3) = EvSetIsDone True \<and> EvComplete \<notin> set (trace r3) \<and>
           foldl apply_event initial_state (trace r3) = done_state (columns (decompose (problem props))) \<and>
           trace (snd (runAnimation props env))
             = trace (speakAndWait env (animationSpeed props) (completion_text props env)
                 (getDuration 600 (animationSpeed props)) r3) @ [EvComplete]"
proof -
  let ?sp = "animationSpeed props"
  let ?cols = "columns (decompose (problem props))"
  let ?b = "getDuration 600 ?sp"
  let ?ct = "completion_text props env"
  define r2 where "r2 = snd (exec env ?sp (run_body props) start_run)"
  define r3 where "r3 = emit [EvSetIsDone True] r2"
  define r4 where "r4 = speakAndWait env ?sp ?ct ?b r3"
  have prog: "runAnimation_steps props env
      = run_body props @ [SetIsDone True, SpeakAndWait ?ct ?b, ReturnIfCancelled, CallOnComplete]"
    by (simp add: runAnimation_steps_split)
  have f2: "fst (exec env ?sp (run_body props) start_run) = Finished"
    using assms unfolding runAnimation_def prog exec_append by (auto split: if_splits)
  have run: "runAnimation props env
      = exec env ?sp [SetIsDone True, SpeakAndWait ?ct ?b, ReturnIfCancelled, CallOnComplete] r2"
    unfolding runAnimation_def prog exec_append r2_def using f2 by simp
  have h4: "halt r4 = None" and c4: "\<not> cancelled r4"
    using assms unfolding run r3_def r4_def by (auto simp: Let_def split: if_splits)
  have res: "snd (runAnimation props env) = emit [EvComplete] r4"
    unfolding run r3_def r4_def using h4 c4 by (simp add: Let_def r3_def r4_def)
  have set2: "filter is_setter (trace r2) = loop_script (operation (problem props)) ?cols (length ?cols)"
  proof -
    have df: "dynamic_free is_setter" by (simp add: dynamic_free_def)
    show ?thesis
      using exec_filter[OF df, of env ?sp "run_body props" start_run] f2
      by (simp add: r2_def start_run_def script_run_body filter_loop_script)
  qed
  have st2: "foldl apply_event initial_state (trace r2) = loop_state ?cols (length ?cols)"
    using loop_history[of "length ?cols" ?cols "operation (problem props)"]
      foldl_apply_filter[of initial_state "trace r2"] set2 by simp
  have nc2: "EvComplete \<notin> set (trace r2)"
  proof -
    have "filter (\<lambda>e. e = EvComplete) (trace r2) = []"
      using exec_filter[OF dynamic_free_complete, of env ?sp "run_body props" start_run] f2
      by (simp add: r2_def start_run_def script_run_body loop_script_no_complete)
    then show ?thesis by (auto simp: filter_empty_conv)
  qed
  have "last (trace r3) = EvSetIsDone True" by (simp add: r3_def)
  moreover have "EvComplete \<notin> set (trace r3)" using nc2 by (simp add: r3_def)
  moreover have "foldl apply_event initial_state (trace r3) = done_state ?cols"
    using st2 by (simp add: r3_def loop_state_def done_state_def digits_upto_def)
  moreover have "trace (snd (runAnimation props env)) = trace r4 @ [EvComplete]"
    using res by simp
  ultimately show ?thesis unfolding r4_def by blast
qed

lemma run_progress:
  assumes "cancel_at env = None" and "settles env"
  shows "fst (runAnimation props env) = Finished"
  unfolding runAnimation_def
  using exec_progress[OF assms, of start_run "animationSpeed props" "runAnimation_steps props env"]
  by (simp add: start_run_def)

lemma finished_run_completions:
  assumes "fst (runAnimation props env) = Finished"
  shows "completions (trace (snd (runAnimation props env))) = 1"
proof -
  have sc: "filter (\<lambda>e. e = EvComplete) (run_script props) = [EvComplete]"
    by (simp add: run_script_def loop_script_no_complete)
  show ?thesis
    unfolding completions_def
    using exec_filter[OF dynamic_free_complete, of env "animationSpeed props"
        "runAnimation_steps props env" start_run] sc assms
    by (simp add: runAnimation_def start_run_def script_runAnimation_steps)
qed

lemma cancelled_run_not_finished:
  assumes "EvCancel \<in> set (trace (snd (runAnimation props env)))"
  shows "fst (runAnimation props env) \<noteq> Finished"
proof
  assume "fst (runAnimation props env) = Finished"
  then have "\<not> cancelled (snd (runAnimation props env))" by (rule run_finished_uncancelled)
  then show False using run_cancel_inv[of env props] assms by (simp add: cancel_inv_def)
qed

section \<open>The timers of a phase\<close>

lemma elapsed_append: "elapsed (a @ b) = elapsed a + elapsed b"
  by (simp add: elapsed_def)















section \<open>Speech that fails\<close>





section \<open>Cancellation\<close>

text \<open>
  Claim C8, as stated, fails in its last part: a run that is never cancelled need not call
  \<open>onComplete\<close>. Here the third utterance of 12 - 5 never fires its event; the run waits
  for it and \<open>onComplete\<close> is not called.
\<close>

theorem uncancelled_run_without_onComplete:
  "cancel_at env_third_silent = None \<and>
   fst (runAnimation props12_5 env_third_silent) = Halted \<and>
   \<not> cancelled (snd (runAnimation props12_5 env_third_silent)) \<and>
   completions (trace (snd (runAnimation props12_5 env_third_silent))) = 0"
  by code_simp

text \<open>
  Claim C8, amended. Once the cleanup has run during an await of a run, that run calls
  \<open>speechManager.stop()\<close> at once and afterwards only lets time pass: it calls no state
  setter, starts no speech and does not call \<open>onComplete\<close>, and it does not finish. No
  run calls \<open>onComplete\<close> more than once. A run that is not cancelled and whose
  utterances all settle finishes and calls \<open>onComplete\<close> exactly once, as its last
  action, right after the \<open>speakAndWait\<close> of the completion text, which starts in the
  state reached by \<open>setIsDone(true)\<close> after the write phase of the last column.
\<close>

theorem cancelled_run_is_quiet:
  "after_cancel_ok (trace (snd (runAnimation props env))) \<and>
   (EvCancel \<in> set (trace (snd (runAnimation props env))) \<longrightarrow>
      EvComplete \<notin> set (trace (snd (runAnimation props env))) \<and>
      fst (runAnimation props env) \<noteq> Finished) \<and>
   completions (trace (snd (runAnimation props env))) \<le> 1 \<and>
   (cancel_at env = None \<longrightarrow> settles env \<longrightarrow>
      fst (runAnimation props env) = Finished \<and>
      completions (trace (snd (runAnimation props env))) = 1 \<and>
      (\<exists>r3. last (trace r3) = EvSetIsDone True \<and> EvComplete \<notin> set (trace r3) \<and>
            foldl apply_event initial_state (trace r3)
              = done_state (columns (decompose (problem props))) \<and>
            trace (snd (runAnimation props env))
              = trace (speakAndWait env (animationSpeed props) (completion_text props env)
                  (getDuration 600 (animationSpeed props)) r3) @ [EvComplete]))"
proof -
  have a: "after_cancel_ok (trace (snd (runAnimation props env)))"
    using run_cancel_inv[of env props] by (rule cancel_inv_ok)
  have b: "EvComplete \<notin> set (trace (snd (runAnimation props env))) \<and>
      fst (runAnimation props env) \<noteq> Finished"
    if "EvCancel \<in> set (trace (snd (runAnimation props env)))"
    using cancelled_run_not_finished[OF that] stopped_run_no_complete by blast
  have c: "completions (trace (snd (runAnimation props env))) \<le> 1"
    by (rule run_completions_le)
  have d: "fst (runAnimation props env) = Finished \<and>
      completions (trace (snd (runAnimation props env))) = 1 \<and>
      (\<exists>r3. last (trace r3) = EvSetIsDone True \<and> EvComplete \<notin> set (trace r3) \<and>
            foldl apply_event initial_state (trace r3)
              = done_state (columns (decompose (problem props))) \<and>
            trace (snd (runAnimation props env))
              = trace (speakAndWait env (animationSpeed props) (completion_text props env)
                  (getDuration 600 (animationSpeed props)) r3) @ [EvComplete])"
    if "cancel_at env = None" "settles env"
  proof -
    have f: "fst (runAnimation props env) = Finished" using that by (rule run_progress)
    show ?thesis using f finished_run_completions[OF f] finished_run_shape[OF f] by blast
  qed
  show ?thesis using a b c d by blast
qed

theorem cancelled_run_is_quiet_witness:
  "EvCancel \<in> set (trace (snd (runAnimation props75 env_cancel4))) \<and>
   EvComplete \<notin> set (trace (snd (runAnimation props75 env_cancel4))) \<and>
   fst (runAnimation props75 env_cancel4) \<noteq> Finished \<and>
   after_cancel_ok (trace (snd (runAnimation props75 env_cancel4))) \<and>
   cancel_at env0 = None \<and> settles env0 \<and>
   fst (runAnimation props75 env0) = Finished \<and>
   completions (trace (snd (runAnimation props75 env0))) = 1"
proof -
  have a: "EvCancel \<in> set (trace (snd (runAnimation props75 env_cancel4)))" by code_simp
  have b: "cancel_at env0 = None" "settles env0" by (simp_all add: env0_def settles_def)
  show ?thesis
    using cancelled_run_is_quiet[of props75 env_cancel4] cancelled_run_is_quiet[of props75 env0] a b
    by blast
qed

section \<open>Dwell times\<close>

text \<open>
  The nominal durations: the base is 600 ms times the speed multiplier, so fast is half
  of normal; the phases wait for 1, 1.5, 1.2 and 0.8 times the base.
\<close>

lemma nominal_durations:
  "getDuration 600 Slow = 900" "getDuration 600 Normal = 600" "getDuration 600 Fast = 300"
  "getDuration 600 Fast = getDuration 600 Normal / 2"
  by (simp_all add: getDuration_def)

lemma speak_fallback_estimate:
  "speak (manager env_nosynth) ''Look at the ones place. 7 and 5.'' (speech_rate Normal) FiresNothing
     = Resolved 0 (Finite (6400 / 3))"
  by code_simp

text \<open>
  Claim C5 fails on the code where speech is enabled in the settings but the browser has
  no synthesizer: \<open>speak\<close> resolves at once with its estimate, \<open>speakAndWait\<close> takes
  the estimate for time that has passed, and the phase lasts 200 ms. At normal speed the
  highlight phase of the ones column of 7 + 5 has the nominal duration 600 ms.
\<close>

theorem fallback_dwell_below_nominal:
  "speechEnabled env_nosynth \<and> \<not> synth (manager env_nosynth) \<and>
   column_text ''highlight'' (hd (columns (decompose p75))) = ''Look at the ones place. 7 and 5.'' \<and>
   getDuration 600 Normal = 600 \<and>
   trace (speakAndWait env_nosynth Normal ''Look at the ones place. 7 and 5.'' 600 start_run)
     = [EvSpeak ''Look at the ones place. 7 and 5.'' 1, EvWait 0, EvWait 200] \<and>
   elapsed (trace (speakAndWait env_nosynth Normal ''Look at the ones place. 7 and 5.'' 600 start_run))
     = 200 \<and>
   take 8 (trace (snd (runAnimation props75 env_nosynth)))
     = [EvStop, EvWait 600, EvSetCurrentColumn 0, EvSetPhase Highlight,
        EvSpeak ''Look at the ones place. 7 and 5.'' 1, EvWait 0, EvWait 200, EvSetPhase Calc]"
  by code_simp

section \<open>The problem generator: validity of a quiz\<close>

declare quiz_attempts.simps [simp del] quiz_fill.simps [simp del]

lemma getRandomInt_range:
  assumes "unit_source src" and "0 \<le> n"
  shows "0 \<le> fst (getRandomInt src 0 n k)" and "fst (getRandomInt src 0 n k) \<le> n"
proof -
  have r: "0 \<le> rnd src k" "rnd src k < 1" using assms(1) by (auto simp: unit_source_def)
  have pos: "(0::rat) < of_int (n + 1)" using assms(2) by simp
  have "0 \<le> rnd src k * of_int (n + 1)" using r(1) pos by simp
  then show "0 \<le> fst (getRandomInt src 0 n k)" by (simp add: getRandomInt_def)
  have "rnd src k * of_int (n + 1) < 1 * of_int (n + 1)"
    using r(2) pos by (intro mult_strict_right_mono) auto
  then have lt: "rnd src k * of_int (n + 1) < of_int (n + 1)" by simp
  have "\<lfloor>rnd src k * of_int (n + 1)\<rfloor> < n + 1" unfolding floor_less_iff using lt .
  then show "fst (getRandomInt src 0 n k) \<le> n" by (simp add: getRandomInt_def)
qed

lemma generateAdditionProblem_valid:
  assumes "unit_source src" and "0 \<le> m"
  shows "valid_problem m (fst (generateAdditionProblem src m k))"
proof -
  obtain a k1 where a: "getRandomInt src 0 m k = (a, k1)" by (cases "getRandomInt src 0 m k")
  have ra: "0 \<le> a" "a \<le> m" using getRandomInt_range[OF assms, of k] a by simp_all
  obtain b k2 where b: "getRandomInt src 0 (m - a) k1 = (b, k2)"
    by (cases "getRandomInt src 0 (m - a) k1")
  have "0 \<le> m - a" using ra by simp
  from getRandomInt_range[OF assms(1) this, of k1]
  have rb: "0 \<le> b" "b \<le> m - a" using b by simp_all
  show ?thesis
    using ra rb by (simp add: generateAdditionProblem_def a b generateId_def valid_problem_def)
qed

lemma generateSubtractionProblem_valid:
  assumes "unit_source src" and "0 \<le> m"
  shows "valid_problem m (fst (generateSubtractionProblem src m k))"
proof -
  obtain a k1 where a: "getRandomInt src 0 m k = (a, k1)" by (cases "getRandomInt src 0 m k")
  have ra: "0 \<le> a" "a \<le> m" using getRandomInt_range[OF assms, of k] a by simp_all
  obtain b k2 where b: "getRandomInt src 0 a k1 = (b, k2)"
    by (cases "getRandomInt src 0 a k1")
  from getRandomInt_range[OF assms(1) ra(1), of k1]
  have rb: "0 \<le> b" "b \<le> a" using b by simp_all
  show ?thesis
    using ra rb by (simp add: generateSubtractionProblem_def a b generateId_def valid_problem_def)
qed

lemma generateProblem_config_valid:
  assumes "unit_source src" and "0 \<le> maxNumber config"
  shows "valid_problem (maxNumber config) (fst (generateProblem_config src config k))"
  using generateAdditionProblem_valid[OF assms] generateSubtractionProblem_valid[OF assms]
  by (simp add: generateProblem_config_def Let_def split: prod.splits)

lemma quiz_attempts_valid:
  assumes "unit_source src" and "0 \<le> maxNumber config"
  shows "list_all (valid_problem (maxNumber config)) problems \<Longrightarrow> length problems \<le> count \<Longrightarrow>
         list_all (valid_problem (maxNumber config))
           (fst (quiz_attempts src config count maxAttempts problems attempts k)) \<and>
         length (fst (quiz_attempts src config count maxAttempts problems attempts k)) \<le> count"
  using assms
proof (induction src config count maxAttempts problems attempts k rule: quiz_attempts.induct)
  case (1 src config count maxAttempts problems attempts k)
  show ?case
  proof (cases "length problems < count \<and> attempts < maxAttempts")
    case False
    then have "quiz_attempts src config count maxAttempts problems attempts k = (problems, k)"
      by (subst quiz_attempts.simps) auto
    then show ?thesis using "1.prems" by simp
  next
    case True
    obtain np k1 where g: "generateProblem_config src config k = (np, k1)"
      by (cases "generateProblem_config src config k")
    have v: "valid_problem (maxNumber config) np"
      using generateProblem_config_valid[OF "1.prems"(3) "1.prems"(4), of k] g by simp
    define problems1 where "problems1 =
               (if problems = [] \<or> \<not> isDuplicateProblem np (last problems) then
                  (let recentProblems = drop (length problems - 3) problems;
                       isDuplicate = list_ex (\<lambda>p. isDuplicateProblem p np) recentProblems
                   in if \<not> isDuplicate then problems @ [np] else problems)
                else problems)"
    have unf: "quiz_attempts src config count maxAttempts problems attempts k
        = quiz_attempts src config count maxAttempts problems1 (Suc attempts) k1"
      using True by (subst quiz_attempts.simps) (simp add: g problems1_def)
    have cases1: "problems1 = problems \<or> problems1 = problems @ [np]"
      by (auto simp: problems1_def Let_def)
    have v1: "list_all (valid_problem (maxNumber config)) problems1"
      using cases1 v "1.prems"(1) by auto
    have l1: "length problems1 \<le> count" using cases1 True by auto
    show ?thesis
      unfolding unf
      using "1.IH"[OF True refl g[symmetric] problems1_def v1 l1 "1.prems"(3) "1.prems"(4)] .
  qed
qed

lemma quiz_fill_valid:
  assumes "unit_source src" and "0 \<le> maxNumber config"
  shows "list_all (valid_problem (maxNumber config)) problems \<Longrightarrow> length problems \<le> count \<Longrightarrow>
         list_all (valid_problem (maxNumber config)) (fst (quiz_fill src config count problems k)) \<and>
         length (fst (quiz_fill src config count problems k)) = count"
  using assms
proof (induction src config count problems k rule: quiz_fill.induct)
  case (1 src config count problems k)
  show ?case
  proof (cases "length problems < count")
    case False
    then have "quiz_fill src config count problems k = (problems, k)"
      by (subst quiz_fill.simps) auto
    then show ?thesis using "1.prems" False by simp
  next
    case True
    obtain np k1 where g: "generateProblem_config src config k = (np, k1)"
      by (cases "generateProblem_config src config k")
    have v: "valid_problem (maxNumber config) np"
      using generateProblem_config_valid[OF "1.prems"(3) "1.prems"(4), of k] g by simp
    have unf: "quiz_fill src config count problems k = quiz_fill src config count (problems @ [np]) k1"
      using True by (subst quiz_fill.simps) (simp add: g)
    have v1: "list_all (valid_problem (maxNumber config)) (problems @ [np])"
      using v "1.prems"(1) by simp
    have l1: "length (problems @ [np]) \<le> count" using True by simp
    show ?thesis
      unfolding unf
      using "1.IH"[OF True refl g[symmetric] v1 l1 "1.prems"(3) "1.prems"(4)] .
  qed
qed

lemma valid_problem_zero:
  "valid_problem 0 p \<Longrightarrow> operand1 p = 0 \<and> operand2 p = 0 \<and> answer p = 0"
  by (auto simp: valid_problem_def split: if_splits)

text \<open>
  Claim C9. For a configuration with \<open>maxNumber \<ge> 0\<close>, every count and every random
  source with values in \<open>[0, 1)\<close>, the quiz has exactly \<open>count\<close> problems; each has its
  operands in \<open>[0, maxNumber]\<close>; an addition problem has
  \<open>answer = operand1 + operand2 \<le> maxNumber\<close>, a subtraction problem has
  \<open>operand1 \<ge> operand2\<close> and \<open>answer = operand1 - operand2 \<ge> 0\<close>; and with
  \<open>maxNumber = 0\<close> every problem is 0 op 0 with answer 0. The levels of the application
  are instances.
\<close>

theorem generateQuiz_valid:
  assumes "unit_source src" and "0 \<le> maxNumber config"
  shows "length (fst (generateQuiz_config src config count k)) = count \<and>
         list_all (valid_problem (maxNumber config)) (fst (generateQuiz_config src config count k)) \<and>
         (maxNumber config = 0 \<longrightarrow>
            list_all (\<lambda>p. operand1 p = 0 \<and> operand2 p = 0 \<and> answer p = 0)
              (fst (generateQuiz_config src config count k))) \<and>
         length (fst (generateQuiz src level count k)) = count \<and>
         list_all (valid_problem (maxNumber (LEVEL_CONFIGS level))) (fst (generateQuiz src level count k))"
proof -
  have gen: "length (fst (generateQuiz_config src c count k)) = count \<and>
         list_all (valid_problem (maxNumber c)) (fst (generateQuiz_config src c count k))"
    if c: "0 \<le> maxNumber c" for c
  proof -
    obtain ps k1 where a: "quiz_attempts src c count (count * 10) [] 0 k = (ps, k1)"
      by (cases "quiz_attempts src c count (count * 10) [] 0 k")
    have "list_all (valid_problem (maxNumber c)) ps \<and> length ps \<le> count"
      using quiz_attempts_valid[OF assms(1) c, of "[]" count "count * 10" 0 k] a by simp
    then show ?thesis
      using quiz_fill_valid[OF assms(1) c, of ps count k1]
      by (simp add: generateQuiz_config_def a)
  qed
  have lv: "0 \<le> maxNumber (LEVEL_CONFIGS level)" by (cases level) simp_all
  have z: "list_all (\<lambda>p. operand1 p = 0 \<and> operand2 p = 0 \<and> answer p = 0)
              (fst (generateQuiz_config src config count k))" if "maxNumber config = 0"
    using gen[OF assms(2)] that valid_problem_zero by (auto simp: list_all_iff)
  show ?thesis
    using gen[OF assms(2)] gen[OF lv] z by (simp add: generateQuiz_def)
qed

lemma unit_source_src0: "unit_source src0"
proof -
  have "k mod 4 < 4" for k :: nat by simp
  then have "(of_nat (k mod 4) :: rat) < 4" for k :: nat
    by (metis of_nat_less_iff of_nat_numeral)
  then show ?thesis by (simp add: unit_source_def src0_def)
qed

theorem generateQuiz_valid_witness:
  "unit_source src0 \<and> 0 \<le> maxNumber config0 \<and> maxNumber config0 = 0 \<and>
   length (fst (generateQuiz_config src0 config0 3 0)) = 3 \<and>
   list_all (\<lambda>p. operand1 p = 0 \<and> operand2 p = 0 \<and> answer p = 0)
     (fst (generateQuiz_config src0 config0 3 0)) \<and>
   length (fst (generateQuiz src0 AddSub10 5 0)) = 5 \<and>
   list_all (valid_problem 10) (fst (generateQuiz src0 AddSub10 5 0))"
proof -
  have c: "0 \<le> maxNumber config0" "maxNumber config0 = 0" by (simp_all add: config0_def)
  have l: "maxNumber (LEVEL_CONFIGS AddSub10) = 10" by simp
  show ?thesis
    using generateQuiz_valid[OF unit_source_src0 c(1), of 3 0 AddSub10 ]
      generateQuiz_valid[OF unit_source_src0 c(1), of 5 0 AddSub10] c unit_source_src0
    unfolding l by blast
qed

end
